theory Spec2Isabelle
  imports Main "HOL-Library.AList" "HOL-Library.Sublist"
begin

section \<open>The parsed HTML tree\<close>

text \<open>
  The program reads a tree of \<^verbatim>\<open>html.Node\<close> values built by \<^verbatim>\<open>html.Parse\<close>
  (package \<^verbatim>\<open>golang.org/x/net/html\<close>). It only follows \<^verbatim>\<open>FirstChild\<close> and
  \<^verbatim>\<open>NextSibling\<close> and reads \<^verbatim>\<open>Type\<close>, \<^verbatim>\<open>Data\<close> and \<^verbatim>\<open>Attr\<close>;
  the tree is never written. A node is its type, its data, its attributes (key and value) and the
  list of its children in document order.
\<close>

datatype NodeType =
  ErrorNode | TextNode | DocumentNode | ElementNode | CommentNode | DoctypeNode | RawNode

datatype html_Node =
  HtmlNode (Type: NodeType) (Data: string) (Attr: "(string \<times> string) list")
    (children: "html_Node list")

text \<open>
  A pointer \<^verbatim>\<open>*html.Node\<close> is the list made of the node it points to followed by that
  node's later siblings: \<open>[]\<close> is \<^verbatim>\<open>nil\<close>, and for \<open>p = c # cs\<close> the pointer
  \<^verbatim>\<open>p.NextSibling\<close> is \<open>cs\<close> and \<^verbatim>\<open>p.FirstChild\<close> is \<open>children c\<close>.
  A pointer further along the same sibling chain is a proper suffix.
\<close>

type_synonym ptr = "html_Node list"

section \<open>How the program stops\<close>

text \<open>
  \<^verbatim>\<open>log.Fatal\<close> and \<^verbatim>\<open>log.Fatalf\<close> print a message and exit with status 1; a
  run-time panic of Go (a nil pointer dereference, an index out of range, an assignment to an
  entry of a nil map) exits with status 2. Each call site is a constructor, carrying what the
  message is formatted from.
\<close>

datatype abort =
  NoHistory
  | BadTableNode
  | NavError string
  | NoHeader string
  | BadRow string
  | ExpectedOneRow nat
  | EmptyMoreDetails
  | UnknownRowType string
  | NilDereference
  | IndexOutOfRange
  | NilMapAssignment

fun exit_status :: "abort \<Rightarrow> nat" where
  "exit_status NilDereference = 2"
| "exit_status IndexOutOfRange = 2"
| "exit_status NilMapAssignment = 2"
| "exit_status _ = 1"

section \<open>The cursor\<close>

text \<open>
  \<^verbatim>\<open>type Node struct { *html.Node; next *html.Node; err error; stack *Node }\<close>.
  The error is the message of \<^verbatim>\<open>errors.New\<close>, \<open>None\<close> for \<^verbatim>\<open>nil\<close>.
\<close>

datatype Node =
  MkNode (Node: ptr) (nxt: ptr) (err: "string option") (stack: "Node option")

text \<open>The loop of \<^verbatim>\<open>Sibling\<close>: the first element with the tag at or after \<open>c\<close>.\<close>

fun scan :: "string \<Rightarrow> ptr \<Rightarrow> ptr" where
  "scan tag [] = []"
| "scan tag (c # cs) =
     (if Type c = ElementNode \<and> Data c = tag then c # cs else scan tag cs)"

definition Sibling :: "string \<Rightarrow> Node \<Rightarrow> Node" where
  "Sibling tag n =
     (if err n \<noteq> None then n
      else case scan tag (nxt n) of
          c # cs \<Rightarrow> MkNode (c # cs) cs (err n) (stack n)
        | [] \<Rightarrow> MkNode (Node n) (nxt n) (Some (''no sibling tag '' @ tag)) (stack n))"

text \<open>
  \<^verbatim>\<open>Child\<close> reads \<^verbatim>\<open>n.FirstChild\<close> through the embedded pointer, so on a cursor
  with no error whose node is \<^verbatim>\<open>nil\<close> it panics.
\<close>

definition Child :: "string \<Rightarrow> Node \<Rightarrow> abort + Node" where
  "Child tag n =
     (if err n \<noteq> None then Inr n
      else case Node n of
          [] \<Rightarrow> Inl NilDereference
        | c # cs \<Rightarrow> Inr (Sibling tag (MkNode (children c) (children c) (err n) (stack n))))"

fun down_text :: "ptr \<Rightarrow> string" where
  "down_text [] = []"
| "down_text (HtmlNode t d a cs # rest) = (if t = TextNode then d else down_text cs)"

fun along_text :: "ptr \<Rightarrow> string" where
  "along_text [] = []"
| "along_text (c # cs) = (if Type c = TextNode then Data c else along_text cs)"

definition ChildText :: "Node \<Rightarrow> string" where
  "ChildText n = (if err n \<noteq> None then [] else down_text (Node n))"

definition Text :: "Node \<Rightarrow> string" where
  "Text n = (if err n \<noteq> None then [] else along_text (Node n))"

definition Push :: "Node \<Rightarrow> Node" where
  "Push n = MkNode (Node n) (nxt n) (err n) (Some n)"

definition Pop :: "Node \<Rightarrow> abort + Node" where
  "Pop n = (case stack n of None \<Rightarrow> Inl NilDereference | Some m \<Rightarrow> Inr m)"

definition Err :: "Node \<Rightarrow> string option" where
  "Err n = err n"

definition Ok :: "Node \<Rightarrow> bool" where
  "Ok n = (err n = None)"

text \<open>
  A chain of navigation calls issued one after the other, as \<^verbatim>\<open>main\<close>, \<^verbatim>\<open>more\<close> and
  \<^verbatim>\<open>more1\<close> write them, is a list of steps run in order.
\<close>

datatype nav = NavChild string | NavSibling string

fun navigate :: "nav list \<Rightarrow> Node \<Rightarrow> abort + Node" where
  "navigate [] n = Inr n"
| "navigate (NavChild tag # ops) n =
     (case Child tag n of Inl a \<Rightarrow> Inl a | Inr n' \<Rightarrow> navigate ops n')"
| "navigate (NavSibling tag # ops) n = navigate ops (Sibling tag n)"

section \<open>strings.TrimSpace\<close>

text \<open>
  \<^verbatim>\<open>strings.TrimSpace\<close> of the Go standard library removes the leading and the trailing
  runes that \<^verbatim>\<open>unicode.IsSpace\<close> accepts. A \<open>string\<close> is the UTF-8 bytes of the Go
  string; \<open>space_runes\<close> are the encodings of U+0009 to U+000D, U+0020, U+0085, U+00A0, U+1680,
  U+2000 to U+200A, U+2028, U+2029, U+202F, U+205F and U+3000.
\<close>

definition space_runes :: "string list" where
  "space_runes =
     [[CHR 0x09], [CHR 0x0A], [CHR 0x0B], [CHR 0x0C], [CHR 0x0D], [CHR 0x20],
      [CHR 0xC2, CHR 0x85], [CHR 0xC2, CHR 0xA0], [CHR 0xE1, CHR 0x9A, CHR 0x80],
      [CHR 0xE2, CHR 0x80, CHR 0x80], [CHR 0xE2, CHR 0x80, CHR 0x81],
      [CHR 0xE2, CHR 0x80, CHR 0x82], [CHR 0xE2, CHR 0x80, CHR 0x83],
      [CHR 0xE2, CHR 0x80, CHR 0x84], [CHR 0xE2, CHR 0x80, CHR 0x85],
      [CHR 0xE2, CHR 0x80, CHR 0x86], [CHR 0xE2, CHR 0x80, CHR 0x87],
      [CHR 0xE2, CHR 0x80, CHR 0x88], [CHR 0xE2, CHR 0x80, CHR 0x89],
      [CHR 0xE2, CHR 0x80, CHR 0x8A], [CHR 0xE2, CHR 0x80, CHR 0xA8],
      [CHR 0xE2, CHR 0x80, CHR 0xA9], [CHR 0xE2, CHR 0x80, CHR 0xAF],
      [CHR 0xE2, CHR 0x81, CHR 0x9F], [CHR 0xE3, CHR 0x80, CHR 0x80]]"

function strip_leading :: "string list \<Rightarrow> string \<Rightarrow> string" where
  "strip_leading rs s =
     (case find (\<lambda>r. r \<noteq> [] \<and> prefix r s) rs of
        None \<Rightarrow> s
      | Some r \<Rightarrow> strip_leading rs (drop (length r) s))"
  by pat_completeness auto
termination
  by (relation "measure (\<lambda>(rs, s). length s)") (auto simp: find_Some_iff prefix_def)

declare strip_leading.simps [simp del]

definition TrimSpace :: "string \<Rightarrow> string" where
  "TrimSpace s =
     rev (strip_leading (map rev space_runes) (rev (strip_leading space_runes s)))"

section \<open>Basic facts about the cursor\<close>

lemma Sibling_sticky: "err n \<noteq> None \<Longrightarrow> Sibling tag n = n"
  by (simp add: Sibling_def)

lemma Child_sticky: "err n \<noteq> None \<Longrightarrow> Child tag n = Inr n"
  by (simp add: Child_def)

lemma navigate_sticky: "err n \<noteq> None \<Longrightarrow> navigate ops n = Inr n"
proof (induction ops)
  case Nil
  show ?case by simp
next
  case (Cons op ops)
  then show ?case
    by (cases op) (simp_all add: Sibling_sticky Child_sticky)
qed

definition has_tag :: "string \<Rightarrow> html_Node \<Rightarrow> bool" where
  "has_tag tag c = (Type c = ElementNode \<and> Data c = tag)"

lemma scan_Cons:
  "scan tag (c # cs) = (if has_tag tag c then c # cs else scan tag cs)"
  by (simp add: has_tag_def)

lemma scan_found:
  "scan tag xs = c # cs \<Longrightarrow>
     \<exists>skipped. xs = skipped @ c # cs \<and> (\<forall>x\<in>set skipped. \<not> has_tag tag x) \<and> has_tag tag c"
proof (induction xs)
  case Nil
  then show ?case by simp
next
  case (Cons x xs)
  show ?case
  proof (cases "has_tag tag x")
    case True
    with Cons.prems have "x # xs = [] @ c # cs" by (simp add: scan_Cons del: scan.simps)
    with True show ?thesis by fastforce
  next
    case False
    with Cons.prems have "scan tag xs = c # cs" by (simp add: scan_Cons del: scan.simps)
    from Cons.IH [OF this] obtain skipped where
      "xs = skipped @ c # cs" "\<forall>x\<in>set skipped. \<not> has_tag tag x" "has_tag tag c" by blast
    with False have "x # xs = (x # skipped) @ c # cs \<and> (\<forall>y\<in>set (x # skipped). \<not> has_tag tag y) \<and> has_tag tag c"
      by simp
    then show ?thesis by blast
  qed
qed

lemma scan_none: "scan tag xs = [] \<longleftrightarrow> (\<forall>x\<in>set xs. \<not> has_tag tag x)"
  by (induction xs) (auto simp: has_tag_def)

lemma Sibling_cases:
  assumes "err n = None"
  shows "(\<exists>skipped c rest. nxt n = skipped @ c # rest \<and> (\<forall>x\<in>set skipped. \<not> has_tag tag x)
            \<and> has_tag tag c \<and> Sibling tag n = MkNode (c # rest) rest None (stack n))
       \<or> ((\<forall>x\<in>set (nxt n). \<not> has_tag tag x)
            \<and> Sibling tag n = MkNode (Node n) (nxt n) (Some (''no sibling tag '' @ tag)) (stack n))"
proof (cases "scan tag (nxt n)")
  case Nil
  then have "\<forall>x\<in>set (nxt n). \<not> has_tag tag x" by (simp add: scan_none)
  moreover from assms Nil
  have "Sibling tag n = MkNode (Node n) (nxt n) (Some (''no sibling tag '' @ tag)) (stack n)"
    by (simp add: Sibling_def)
  ultimately show ?thesis by blast
next
  case (Cons c rest)
  from scan_found [OF Cons] obtain skipped where
    "nxt n = skipped @ c # rest" "\<forall>x\<in>set skipped. \<not> has_tag tag x" "has_tag tag c" by blast
  moreover from assms Cons have "Sibling tag n = MkNode (c # rest) rest None (stack n)"
    by (simp add: Sibling_def)
  ultimately show ?thesis by blast
qed

lemma fold_Sibling_sticky: "err n \<noteq> None \<Longrightarrow> fold Sibling tags n = n"
  by (induction tags) (simp_all add: Sibling_sticky)

lemma Sibling_ok:
  assumes "err (Sibling tag n) = None"
  shows "err n = None \<and> Node (Sibling tag n) \<noteq> [] \<and> suffix (Node (Sibling tag n)) (nxt n)
    \<and> nxt (Sibling tag n) = tl (Node (Sibling tag n))"
proof -
  from assms have e: "err n = None" by (auto simp: Sibling_def split: if_splits)
  from Sibling_cases [OF e, of tag] assms show ?thesis
    using e by (auto simp: suffix_def)
qed

lemma Sibling_stack: "stack (Sibling tag n) = stack n"
  by (simp add: Sibling_def split: list.splits)

lemma Child_stack: "Child tag n = Inr n' \<Longrightarrow> stack n' = stack n"
  by (auto simp: Child_def Sibling_stack split: if_splits list.splits)

lemma navigate_stack: "navigate ops n = Inr n' \<Longrightarrow> stack n' = stack n"
proof (induction ops arbitrary: n)
  case Nil
  then show ?case by simp
next
  case (Cons op ops)
  show ?case
  proof (cases op)
    case (NavChild tag)
    with Cons.prems obtain m where "Child tag n = Inr m" "navigate ops m = Inr n'"
      by (auto split: sum.splits)
    with Cons.IH [of m] Child_stack [of tag n m] show ?thesis by simp
  next
    case (NavSibling tag)
    with Cons.prems Cons.IH [of "Sibling tag n"] show ?thesis by (simp add: Sibling_stack)
  qed
qed

lemma Pop_Push: "Pop (Push n) = Inr n"
  by (simp add: Pop_def Push_def)

lemma Pop_Child_Push: "Child tag (Push n) = Inr n1 \<Longrightarrow> Pop n1 = Inr n2 \<Longrightarrow> n2 = n"
  by (drule Child_stack) (simp add: Pop_def Push_def)

text \<open>
  Every loop of the program advances with \<^verbatim>\<open>Sibling\<close> and stops at the first error, so
  it ends: a successful \<^verbatim>\<open>Sibling\<close> shortens the resume pointer.
\<close>

definition remaining :: "Node \<Rightarrow> nat" where
  "remaining n = (if err n = None then Suc (length (nxt n)) else 0)"

lemma remaining_Sibling: "err n = None \<Longrightarrow> remaining (Sibling tag n) < remaining n"
  using Sibling_cases [of n tag] by (auto simp: remaining_def)

lemma remaining_Sibling_le: "remaining (Sibling tag n) \<le> remaining n"
proof (cases "err n")
  case None
  then show ?thesis using remaining_Sibling [of n tag] by simp
next
  case (Some msg)
  then show ?thesis by (simp add: Sibling_sticky)
qed

section \<open>Finding the history anchor\<close>

text \<open>
  \<^verbatim>\<open>findHistory\<close> is only called on a node that is not \<^verbatim>\<open>nil\<close>: \<open>findHistory c rest\<close>
  is the call on the pointer \<open>c # rest\<close>, and \<open>findHistory_children\<close> is its loop over the
  children.
\<close>

fun findHistory :: "html_Node \<Rightarrow> ptr \<Rightarrow> ptr" and findHistory_children :: "ptr \<Rightarrow> ptr" where
  "findHistory (HtmlNode t d attrs cs) rest =
     (if t = ElementNode \<and> d = ''a''
         \<and> list_ex (\<lambda>a. fst a = ''name'' \<and> snd a = ''History'') attrs
      then HtmlNode t d attrs cs # rest
      else findHistory_children cs)"
| "findHistory_children [] = []"
| "findHistory_children (c # cs) =
     (case findHistory c cs of [] \<Rightarrow> findHistory_children cs | r # rs \<Rightarrow> r # rs)"

section \<open>Extracting a regular data row\<close>

text \<open>
  \<^verbatim>\<open>row\<close> returns the values or an error and leaves the cursor as its deferred
  \<^verbatim>\<open>Pop\<close> sets it; \<open>row_cells\<close> is its loop, entered at the test \<^verbatim>\<open>n.Ok()\<close>.
\<close>

function row_cells :: "Node \<Rightarrow> string list \<Rightarrow> abort + Node \<times> (string + string list)" where
  "row_cells n values =
     (if err n \<noteq> None then Inr (n, Inr values)
      else case Child ''label'' (Push n) of
          Inl a \<Rightarrow> Inl a
        | Inr n1 \<Rightarrow>
            (let val = TrimSpace (ChildText n1) in
             case err n1 of
               Some msg \<Rightarrow>
                 (case Pop n1 of Inl a \<Rightarrow> Inl a | Inr n2 \<Rightarrow> Inr (n2, Inl msg))
             | None \<Rightarrow>
                 (case Pop n1 of
                    Inl a \<Rightarrow> Inl a
                  | Inr n2 \<Rightarrow> row_cells (Sibling ''td'' n2) (values @ [val]))))"
  by pat_completeness auto
termination
proof (relation "measure (\<lambda>(n, values). remaining n)")
  show "wf (measure (\<lambda>(n, values). remaining n))" by simp
next
  fix n :: Node and vals :: "string list" and n1 val n2
  assume "\<not> err n \<noteq> None" "Child ''label'' (Push n) = Inr n1" "Pop n1 = Inr n2"
  then have "n2 = n" "err n = None" by (auto dest: Pop_Child_Push)
  then show "((Sibling ''td'' n2, vals @ [val]), (n, vals)) \<in> measure (\<lambda>(n, values). remaining n)"
    by (simp add: remaining_Sibling)
qed

declare row_cells.simps [simp del]

definition row :: "Node \<Rightarrow> abort + Node \<times> (string + string list)" where
  "row n =
     (case Child ''td'' (Push n) of
        Inl a \<Rightarrow> Inl a
      | Inr n1 \<Rightarrow>
          (case row_cells n1 [] of
             Inl a \<Rightarrow> Inl a
           | Inr (n2, r) \<Rightarrow> (case Pop n2 of Inl a \<Rightarrow> Inl a | Inr n3 \<Rightarrow> Inr (n3, r))))"

lemma row_cells_stack: "row_cells n vals = Inr (n', r) \<Longrightarrow> stack n' = stack n"
proof (induction n vals rule: row_cells.induct)
  case (1 n vals)
  note unf = row_cells.simps [of n vals]
  show ?case
  proof (cases "err n \<noteq> None")
    case True
    with "1.prems" unf show ?thesis by simp
  next
    case False
    with "1.prems" unf obtain n1 n2 where c: "Child ''label'' (Push n) = Inr n1" and p: "Pop n1 = Inr n2"
      by (auto simp: Let_def split: sum.splits option.splits)
    from Pop_Child_Push [OF c p] have n2: "n2 = n" .
    show ?thesis
    proof (cases "err n1")
      case None
      with False c p "1.prems" unf
      have "row_cells (Sibling ''td'' n2) (vals @ [TrimSpace (ChildText n1)]) = Inr (n', r)"
        by simp
      from "1.IH" [OF False c refl None p this] n2 show ?thesis by (simp add: Sibling_stack)
    next
      case (Some msg)
      with False c p "1.prems" unf n2 show ?thesis by simp
    qed
  qed
qed

lemma row_restores: "row n = Inr (n', r) \<Longrightarrow> n' = n"
proof -
  assume a: "row n = Inr (n', r)"
  then obtain n1 n2 where c: "Child ''td'' (Push n) = Inr n1"
    and rc: "row_cells n1 [] = Inr (n2, r)" and p: "Pop n2 = Inr n'"
    by (auto simp: row_def split: sum.splits prod.splits)
  from row_cells_stack [OF rc] Child_stack [OF c] have "stack n2 = Some n" by (simp add: Push_def)
  with p show ?thesis by (simp add: Pop_def)
qed

section \<open>Extracting a "more details" row set\<close>

text \<open>
  The loops of \<^verbatim>\<open>more\<close>: \<open>more_headers\<close> reads the header cells, \<open>strip_trailing\<close>
  drops the empty labels at the end, \<open>more_cells\<close> reads one row against the headers and
  \<open>more_rows\<close> walks the rows. \<open>more_table\<close> is the part of \<^verbatim>\<open>more\<close> after the
  cursor has reached the header row.
\<close>

function more_headers :: "Node \<Rightarrow> string list \<Rightarrow> abort + Node \<times> string list" where
  "more_headers n headers =
     (if err n \<noteq> None then Inr (n, headers)
      else case Child ''b'' (Push n) of
          Inl a \<Rightarrow> Inl a
        | Inr n1 \<Rightarrow>
            (case Pop n1 of
               Inl a \<Rightarrow> Inl a
             | Inr n2 \<Rightarrow>
                 more_headers (Sibling ''td'' n2) (headers @ [TrimSpace (ChildText n1)])))"
  by pat_completeness auto
termination
proof (relation "measure (\<lambda>(n, headers). remaining n)")
  show "wf (measure (\<lambda>(n, headers). remaining n))" by simp
next
  fix n :: Node and headers :: "string list" and n1 n2
  assume "\<not> err n \<noteq> None" "Child ''b'' (Push n) = Inr n1" "Pop n1 = Inr n2"
  then have "n2 = n" "err n = None" by (auto dest: Pop_Child_Push)
  then show "((Sibling ''td'' n2, headers @ [TrimSpace (ChildText n1)]), (n, headers))
      \<in> measure (\<lambda>(n, headers). remaining n)"
    by (simp add: remaining_Sibling)
qed

declare more_headers.simps [simp del]

function strip_trailing :: "string list \<Rightarrow> string list" where
  "strip_trailing headers =
     (if 0 < length headers \<and> headers ! (length headers - 1) = []
      then strip_trailing (take (length headers - 1) headers)
      else headers)"
  by pat_completeness auto
termination
  by (relation "measure length") auto

declare strip_trailing.simps [simp del]

function more_cells ::
  "string list \<Rightarrow> Node \<Rightarrow> nat \<Rightarrow> (string \<times> string) list
     \<Rightarrow> Node \<times> nat \<times> (string \<times> string) list" where
  "more_cells headers n i m =
     (if err n = None \<and> i < length headers
      then more_cells headers (Sibling ''td'' n) (Suc i)
             (AList.update (headers ! i) (TrimSpace (ChildText n)) m)
      else (n, i, m))"
  by pat_completeness auto
termination
  by (relation "measure (\<lambda>(headers, n, i, m). length headers - i)") auto

declare more_cells.simps [simp del]

lemma more_cells_stack: "more_cells headers n i m = (n', r) \<Longrightarrow> stack n' = stack n"
proof (induction headers n i m rule: more_cells.induct)
  case (1 headers n i m)
  note unf = more_cells.simps [of headers n i m]
  show ?case
  proof (cases "err n = None \<and> i < length headers")
    case True
    with "1.prems" unf "1.IH" [OF True] show ?thesis by (simp add: Sibling_stack)
  next
    case False
    with "1.prems" unf show ?thesis by auto
  qed
qed

function more_rows ::
  "string list \<Rightarrow> Node \<Rightarrow> (string \<times> string) list list
     \<Rightarrow> abort + Node \<times> (string \<times> string) list list" where
  "more_rows headers n entries =
     (if err n \<noteq> None then Inr (n, entries)
      else case Child ''td'' (Push n) of
          Inl a \<Rightarrow> Inl a
        | Inr n1 \<Rightarrow>
            (case more_cells headers n1 0 [] of
               (n2, i, m) \<Rightarrow>
                 (case Pop n2 of
                    Inl a \<Rightarrow> Inl a
                  | Inr n3 \<Rightarrow>
                      more_rows headers (Sibling ''tr'' n3)
                        (if i = length headers then entries @ [m] else entries))))"
  by pat_completeness auto
termination
proof (relation "measure (\<lambda>(headers, n, entries). remaining n)")
  show "wf (measure (\<lambda>(headers, n, entries). remaining n))" by simp
next
  fix headers :: "string list" and n :: Node and entries :: "(string \<times> string) list list"
    and n1 n2 r i m n3
  assume ok: "\<not> err n \<noteq> None" and ch: "Child ''td'' (Push n) = Inr n1"
    and mc: "(n2, r) = more_cells headers n1 0 []" "(i, m) = r" and p: "Pop n2 = Inr n3"
  from mc have "more_cells headers n1 0 [] = (n2, r)" by simp
  from more_cells_stack [OF this] Child_stack [OF ch] have "stack n2 = Some n"
    by (simp add: Push_def)
  with p have "n3 = n" by (simp add: Pop_def)
  with ok show "((headers, Sibling ''tr'' n3, if i = length headers then entries @ [m] else entries),
      (headers, n, entries)) \<in> measure (\<lambda>(headers, n, entries). remaining n)"
    by (simp add: remaining_Sibling)
qed

declare more_rows.simps [simp del]

definition more_table :: "Node \<Rightarrow> abort + Node \<times> (string \<times> string) list list" where
  "more_table n =
     (case Child ''td'' (Push n) of
        Inl a \<Rightarrow> Inl a
      | Inr n1 \<Rightarrow>
          (case more_headers n1 [] of
             Inl a \<Rightarrow> Inl a
           | Inr (n2, headers) \<Rightarrow>
               (case Pop n2 of
                  Inl a \<Rightarrow> Inl a
                | Inr n3 \<Rightarrow> more_rows (strip_trailing headers) (Sibling ''tr'' n3) [])))"

definition more :: "Node \<Rightarrow> abort + Node \<times> (string + (string \<times> string) list list)" where
  "more n =
     (case navigate [NavChild ''td'', NavChild ''div'', NavChild ''div'', NavChild ''table'',
              NavSibling ''table'', NavChild ''tbody'', NavChild ''tr''] (Push n) of
        Inl a \<Rightarrow> Inl a
      | Inr n1 \<Rightarrow>
          (case err n1 of
             Some msg \<Rightarrow> (case Pop n1 of Inl a \<Rightarrow> Inl a | Inr n2 \<Rightarrow> Inr (n2, Inl msg))
           | None \<Rightarrow>
               (case more_table n1 of
                  Inl a \<Rightarrow> Inl a
                | Inr (n2, entries) \<Rightarrow>
                    (case Pop n2 of Inl a \<Rightarrow> Inl a | Inr n3 \<Rightarrow> Inr (n3, Inr entries)))))"

lemma more_headers_stack: "more_headers n hs = Inr (n', r) \<Longrightarrow> stack n' = stack n"
proof (induction n hs rule: more_headers.induct)
  case (1 n hs)
  note unf = more_headers.simps [of n hs]
  show ?case
  proof (cases "err n \<noteq> None")
    case True
    with "1.prems" unf show ?thesis by simp
  next
    case False
    with "1.prems" unf obtain n1 n2 where c: "Child ''b'' (Push n) = Inr n1" and p: "Pop n1 = Inr n2"
      by (auto split: sum.splits)
    from Pop_Child_Push [OF c p] have n2: "n2 = n" .
    from False c p "1.prems" unf
    have "more_headers (Sibling ''td'' n2) (hs @ [TrimSpace (ChildText n1)]) = Inr (n', r)"
      by simp
    from "1.IH" [OF False c p this] n2 show ?thesis by (simp add: Sibling_stack)
  qed
qed

lemma more_rows_step:
  assumes "err n = None" and "more_rows hs n acc = Inr (n', r)"
  obtains n1 n2 i m where "Child ''td'' (Push n) = Inr n1"
    and "more_cells hs n1 0 [] = (n2, i, m)" and "Pop n2 = Inr n"
    and "more_rows hs (Sibling ''tr'' n) (if i = length hs then acc @ [m] else acc) = Inr (n', r)"
proof -
  note unf = more_rows.simps [of hs n acc]
  from assms unf obtain n1 where c: "Child ''td'' (Push n) = Inr n1"
    by (auto split: sum.splits)
  obtain n2 i m where mc: "more_cells hs n1 0 [] = (n2, i, m)" by (metis prod_cases3)
  from more_cells_stack [OF mc] Child_stack [OF c] have "stack n2 = Some n"
    by (simp add: Push_def)
  then have p: "Pop n2 = Inr n" by (simp add: Pop_def)
  from assms unf c mc p
  have "more_rows hs (Sibling ''tr'' n) (if i = length hs then acc @ [m] else acc) = Inr (n', r)"
    by simp
  with c mc p that show ?thesis by blast
qed

lemma more_rows_stack: "more_rows hs n acc = Inr (n', r) \<Longrightarrow> stack n' = stack n"
proof (induction hs n acc rule: more_rows.induct)
  case (1 hs n acc)
  show ?case
  proof (cases "err n \<noteq> None")
    case True
    with "1.prems" more_rows.simps [of hs n acc] show ?thesis by simp
  next
    case False
    then have ok: "err n = None" by simp
    from more_rows_step [OF ok "1.prems"] obtain n1 n2 i m where
      c: "Child ''td'' (Push n) = Inr n1" and mc: "more_cells hs n1 0 [] = (n2, i, m)"
      and p: "Pop n2 = Inr n"
      and r: "more_rows hs (Sibling ''tr'' n) (if i = length hs then acc @ [m] else acc) = Inr (n', r)"
      by blast
    from "1.IH" [OF False c mc [symmetric] refl p r] show ?thesis by (simp add: Sibling_stack)
  qed
qed

lemma more_restores: "more n = Inr (n', r) \<Longrightarrow> n' = n"
proof -
  assume a: "more n = Inr (n', r)"
  let ?chain = "[NavChild ''td'', NavChild ''div'', NavChild ''div'', NavChild ''table'',
              NavSibling ''table'', NavChild ''tbody'', NavChild ''tr'']"
  from a obtain n1 where nav: "navigate ?chain (Push n) = Inr n1"
    by (auto simp: more_def split: sum.splits)
  from navigate_stack [OF nav] have s1: "stack n1 = Some n" by (simp add: Push_def)
  show ?thesis
  proof (cases "err n1")
    case (Some msg)
    with a nav s1 show ?thesis by (simp add: more_def Pop_def)
  next
    case None
    with a nav obtain n2 es where mt: "more_table n1 = Inr (n2, es)" and p: "Pop n2 = Inr n'"
      by (auto simp: more_def split: sum.splits)
    from mt obtain m1 m2 hs m3 where c: "Child ''td'' (Push n1) = Inr m1"
      and mh: "more_headers m1 [] = Inr (m2, hs)" and p3: "Pop m2 = Inr m3"
      and mr: "more_rows (strip_trailing hs) (Sibling ''tr'' m3) [] = Inr (n2, es)"
      by (auto simp: more_table_def split: sum.splits)
    from more_headers_stack [OF mh] Child_stack [OF c] have "stack m2 = Some n1"
      by (simp add: Push_def)
    with p3 have "m3 = n1" by (simp add: Pop_def)
    with more_rows_stack [OF mr] s1 have "stack n2 = Some n" by (simp add: Sibling_stack)
    with p show ?thesis by (simp add: Pop_def)
  qed
qed

section \<open>Extracting the second style of "more details" row\<close>

function more1_cells ::
  "Node \<Rightarrow> (string \<times> string) list \<Rightarrow> abort + Node \<times> (string \<times> string) list" where
  "more1_cells n entries =
     (if err n \<noteq> None then Inr (n, entries)
      else let key = TrimSpace (ChildText n) in
        case Child ''b'' (Push n) of
          Inl a \<Rightarrow> Inl a
        | Inr n1 \<Rightarrow>
            (let val = TrimSpace (Text n1) in
             case Pop n1 of
               Inl a \<Rightarrow> Inl a
             | Inr n2 \<Rightarrow>
                 more1_cells (Sibling ''td'' n2)
                   (if key \<noteq> [] then AList.update key val entries else entries)))"
  by pat_completeness auto
termination
proof (relation "measure (\<lambda>(n, entries). remaining n)")
  show "wf (measure (\<lambda>(n, entries). remaining n))" by simp
next
  fix n :: Node and entries :: "(string \<times> string) list" and key n1 val n2
  assume "\<not> err n \<noteq> None" "Child ''b'' (Push n) = Inr n1" "Pop n1 = Inr n2"
  then have "n2 = n" "err n = None" by (auto dest: Pop_Child_Push)
  then show "((Sibling ''td'' n2, if key \<noteq> [] then AList.update key val entries else entries),
      (n, entries)) \<in> measure (\<lambda>(n, entries). remaining n)"
    by (simp add: remaining_Sibling)
qed

declare more1_cells.simps [simp del]

lemma more1_cells_stack: "more1_cells n entries = Inr (n', r) \<Longrightarrow> stack n' = stack n"
proof (induction n entries rule: more1_cells.induct)
  case (1 n entries)
  note unf = more1_cells.simps [of n entries]
  show ?case
  proof (cases "err n \<noteq> None")
    case True
    with "1.prems" unf show ?thesis by simp
  next
    case False
    with "1.prems" unf obtain n1 n2 where c: "Child ''b'' (Push n) = Inr n1" and p: "Pop n1 = Inr n2"
      by (auto simp: Let_def split: sum.splits)
    from Pop_Child_Push [OF c p] have n2: "n2 = n" .
    from False c p "1.prems" unf obtain entries' where
      "more1_cells (Sibling ''td'' n2) entries' = Inr (n', r)"
      and "entries' = (if TrimSpace (ChildText n) \<noteq> [] then AList.update (TrimSpace (ChildText n)) (TrimSpace (Text n1)) entries else entries)"
      by (simp add: Let_def)
    from "1.IH" [OF False refl c refl p] this n2 show ?thesis by (simp add: Sibling_stack)
  qed
qed

function more1_rows ::
  "Node \<Rightarrow> (string \<times> string) list \<Rightarrow> abort + Node \<times> (string \<times> string) list" where
  "more1_rows n entries =
     (if err n \<noteq> None then Inr (n, entries)
      else case Child ''td'' (Push n) of
          Inl a \<Rightarrow> Inl a
        | Inr n1 \<Rightarrow>
            (case more1_cells n1 entries of
               Inl a \<Rightarrow> Inl a
             | Inr (n2, entries') \<Rightarrow>
                 (case Pop n2 of
                    Inl a \<Rightarrow> Inl a
                  | Inr n3 \<Rightarrow> more1_rows (Sibling ''tr'' n3) entries')))"
  by pat_completeness auto
termination
proof (relation "measure (\<lambda>(n, entries). remaining n)")
  show "wf (measure (\<lambda>(n, entries). remaining n))" by simp
next
  fix n :: Node and entries :: "(string \<times> string) list" and n1 c n2 entries' n3
  assume ok: "\<not> err n \<noteq> None" and ch: "Child ''td'' (Push n) = Inr n1"
    and mc: "more1_cells n1 entries = Inr c" "(n2, entries') = c" and p: "Pop n2 = Inr n3"
  from mc have "more1_cells n1 entries = Inr (n2, entries')" by simp
  from more1_cells_stack [OF this] Child_stack [OF ch] have "stack n2 = Some n"
    by (simp add: Push_def)
  with p have "n3 = n" by (simp add: Pop_def)
  with ok show "((Sibling ''tr'' n3, entries'), (n, entries)) \<in> measure (\<lambda>(n, entries). remaining n)"
    by (simp add: remaining_Sibling)
qed

declare more1_rows.simps [simp del]

definition more1 :: "Node \<Rightarrow> abort + Node \<times> (string + (string \<times> string) list)" where
  "more1 n =
     (case navigate [NavChild ''td'', NavChild ''div'', NavChild ''div'', NavChild ''table'',
              NavSibling ''table'', NavChild ''tbody''] (Push n) of
        Inl a \<Rightarrow> Inl a
      | Inr n1 \<Rightarrow>
          (case err n1 of
             Some msg \<Rightarrow> (case Pop n1 of Inl a \<Rightarrow> Inl a | Inr n2 \<Rightarrow> Inr (n2, Inl msg))
           | None \<Rightarrow>
               (case Child ''tr'' n1 of
                  Inl a \<Rightarrow> Inl a
                | Inr n2 \<Rightarrow>
                    (case more1_rows n2 [] of
                       Inl a \<Rightarrow> Inl a
                     | Inr (n3, entries) \<Rightarrow>
                         (case Pop n3 of
                            Inl a \<Rightarrow> Inl a
                          | Inr n4 \<Rightarrow> Inr (n4, Inr entries))))))"

lemma more1_rows_stack: "more1_rows n acc = Inr (n', r) \<Longrightarrow> stack n' = stack n"
proof (induction n acc rule: more1_rows.induct)
  case (1 n acc)
  note unf = more1_rows.simps [of n acc]
  show ?case
  proof (cases "err n \<noteq> None")
    case True
    with "1.prems" unf show ?thesis by simp
  next
    case False
    with "1.prems" unf obtain n1 n2 acc' n3 where c: "Child ''td'' (Push n) = Inr n1"
      and mc: "more1_cells n1 acc = Inr (n2, acc')" and p: "Pop n2 = Inr n3"
      by (auto split: sum.splits)
    from more1_cells_stack [OF mc] Child_stack [OF c] have "stack n2 = Some n"
      by (simp add: Push_def)
    with p have n3: "n3 = n" by (simp add: Pop_def)
    from False c mc p "1.prems" unf
    have "more1_rows (Sibling ''tr'' n3) acc' = Inr (n', r)" by simp
    from "1.IH" [OF False c mc refl p this] n3 show ?thesis by (simp add: Sibling_stack)
  qed
qed

lemma more1_restores: "more1 n = Inr (n', r) \<Longrightarrow> n' = n"
proof -
  assume a: "more1 n = Inr (n', r)"
  let ?chain = "[NavChild ''td'', NavChild ''div'', NavChild ''div'', NavChild ''table'',
              NavSibling ''table'', NavChild ''tbody'']"
  from a obtain n1 where nav: "navigate ?chain (Push n) = Inr n1"
    by (auto simp: more1_def split: sum.splits)
  from navigate_stack [OF nav] have s1: "stack n1 = Some n" by (simp add: Push_def)
  show ?thesis
  proof (cases "err n1")
    case (Some msg)
    with a nav s1 show ?thesis by (simp add: more1_def Pop_def)
  next
    case None
    with a nav obtain n2 n3 es where c: "Child ''tr'' n1 = Inr n2"
      and mr: "more1_rows n2 [] = Inr (n3, es)" and p: "Pop n3 = Inr n'"
      by (auto simp: more1_def split: sum.splits)
    from more1_rows_stack [OF mr] Child_stack [OF c] s1 have "stack n3 = Some n" by simp
    with p show ?thesis by (simp add: Pop_def)
  qed
qed

section \<open>The ledger\<close>

text \<open>
  A Go map is a list of pairs with distinct keys, written with \<open>AList.update\<close> and read with
  \<open>map_of\<close>; \<open>None\<close> is the \<^verbatim>\<open>nil\<close> map of a zero \<^verbatim>\<open>Ledger\<close>, which
  \<^verbatim>\<open>Write\<close> cannot assign to. Go walks a map in no fixed order; the loops over a map
  below write distinct keys or stop the program, so the order does not show in the result.
\<close>

datatype Ledger =
  MkLedger (entries: "(string \<times> string) list list") (e: "(string \<times> string) list option")

definition Next :: "Ledger \<Rightarrow> Ledger" where
  "Next l =
     MkLedger
       (case e l of
          Some m \<Rightarrow> if 0 < length m then entries l @ [m] else entries l
        | None \<Rightarrow> entries l)
       (Some [])"

definition Write :: "string \<Rightarrow> string \<Rightarrow> Ledger \<Rightarrow> abort + Ledger" where
  "Write k v l =
     (case e l of
        None \<Rightarrow> Inl NilMapAssignment
      | Some m \<Rightarrow> Inr (MkLedger (entries l) (Some (AList.update k v m))))"

section \<open>The rows of the history table\<close>

text \<open>
  \<open>mk_header\<close> is the loop that fills \<^verbatim>\<open>header\<close>; \<open>at_key header k\<close> is
  \<^verbatim>\<open>header[k]\<close>, zero for a missing key; \<open>index values i\<close> is \<^verbatim>\<open>values[i]\<close>.
  \<open>write_header\<close>, \<open>write_entry\<close> and \<open>write_core\<close> are the three loops that write
  into the ledger, \<open>fan_out\<close> the loop over the detail entries. \<open>row_step\<close> is the body of
  the loop over the rows, \<open>dispatch\<close> its switch on the action, with one function for each case that reads details.
\<close>

definition mk_header :: "string list \<Rightarrow> (string \<times> nat) list" where
  "mk_header headerVals =
     fold (\<lambda>i header. AList.update (headerVals ! i) i header) [0..<length headerVals] []"

definition at_key :: "(string \<times> nat) list \<Rightarrow> string \<Rightarrow> nat" where
  "at_key header k = (case map_of header k of None \<Rightarrow> 0 | Some i \<Rightarrow> i)"

definition index :: "string list \<Rightarrow> nat \<Rightarrow> abort + string" where
  "index values i = (if i < length values then Inr (values ! i) else Inl IndexOutOfRange)"

definition coreKeys :: "string list" where
  "coreKeys = [''Date'', ''Description'', ''Action'', ''Symbol'']"

fun write_header :: "(string \<times> nat) list \<Rightarrow> string list \<Rightarrow> Ledger \<Rightarrow> abort + Ledger" where
  "write_header [] values l = Inr l"
| "write_header ((k, i) # header) values l =
     (case index values i of
        Inl a \<Rightarrow> Inl a
      | Inr v \<Rightarrow>
          (case Write k v l of Inl a \<Rightarrow> Inl a | Inr l' \<Rightarrow> write_header header values l'))"

fun write_entry :: "(string \<times> string) list \<Rightarrow> Ledger \<Rightarrow> abort + Ledger" where
  "write_entry [] l = Inr l"
| "write_entry ((k, v) # kvs) l =
     (case Write k v l of Inl a \<Rightarrow> Inl a | Inr l' \<Rightarrow> write_entry kvs l')"

fun write_core ::
  "string list \<Rightarrow> (string \<times> nat) list \<Rightarrow> string list \<Rightarrow> Ledger \<Rightarrow> abort + Ledger" where
  "write_core [] header values l = Inr l"
| "write_core (k # ks) header values l =
     (case index values (at_key header k) of
        Inl a \<Rightarrow> Inl a
      | Inr v \<Rightarrow>
          (case Write k v l of
             Inl a \<Rightarrow> Inl a
           | Inr l' \<Rightarrow> write_core ks header values l'))"

fun fan_out ::
  "(string \<times> string) list list \<Rightarrow> (string \<times> nat) list \<Rightarrow> string list \<Rightarrow> Ledger
     \<Rightarrow> abort + Ledger" where
  "fan_out [] header values l = Inr l"
| "fan_out (m # ms) header values l =
     (case write_core coreKeys header values (Next l) of
        Inl a \<Rightarrow> Inl a
      | Inr l1 \<Rightarrow>
          (case write_entry m l1 of
             Inl a \<Rightarrow> Inl a
           | Inr l2 \<Rightarrow> fan_out ms header values l2))"

definition lapse_row ::
  "(string \<times> nat) list \<Rightarrow> string list \<Rightarrow> Node \<Rightarrow> Ledger \<Rightarrow> abort + Node \<times> Ledger" where
  "lapse_row header values n l =
     (case write_header header values (Next l) of
        Inl a \<Rightarrow> Inl a
      | Inr l1 \<Rightarrow>
          (case more1 (Sibling ''tr'' n) of
             Inl a \<Rightarrow> Inl a
           | Inr (n1, Inl msg) \<Rightarrow> Inl (NavError msg)
           | Inr (n1, Inr details) \<Rightarrow>
               (case write_entry details l1 of
                  Inl a \<Rightarrow> Inl a
                | Inr l2 \<Rightarrow> Inr (n1, l2))))"

definition deposit_row ::
  "(string \<times> nat) list \<Rightarrow> string list \<Rightarrow> Node \<Rightarrow> Ledger \<Rightarrow> abort + Node \<times> Ledger" where
  "deposit_row header values n l =
     (case write_header header values (Next l) of
        Inl a \<Rightarrow> Inl a
      | Inr l1 \<Rightarrow>
          (case more (Sibling ''tr'' n) of
             Inl a \<Rightarrow> Inl a
           | Inr (n1, Inl msg) \<Rightarrow> Inl (NavError msg)
           | Inr (n1, Inr details) \<Rightarrow>
               if length details \<noteq> 1 then Inl (ExpectedOneRow (length details))
               else (case write_entry (details ! 0) l1 of
                  Inl a \<Rightarrow> Inl a
                | Inr l2 \<Rightarrow> Inr (n1, l2))))"

definition exercise_row ::
  "(string \<times> nat) list \<Rightarrow> string list \<Rightarrow> Node \<Rightarrow> Ledger \<Rightarrow> abort + Node \<times> Ledger" where
  "exercise_row header values n l =
     (case more (Sibling ''tr'' n) of
        Inl a \<Rightarrow> Inl a
      | Inr (n1, Inl msg) \<Rightarrow> Inl (NavError msg)
      | Inr (n1, Inr details) \<Rightarrow>
          if length details = 0 then Inl EmptyMoreDetails
          else (case fan_out details header values l of
             Inl a \<Rightarrow> Inl a
           | Inr l1 \<Rightarrow> Inr (n1, l1)))"

definition dispatch ::
  "string \<Rightarrow> (string \<times> nat) list \<Rightarrow> string list \<Rightarrow> Node \<Rightarrow> Ledger
     \<Rightarrow> abort + Node \<times> Ledger" where
  "dispatch action header values n l =
     (if action = ''Lapse'' then lapse_row header values n l
      else if action = ''Deposit'' \<or> action = ''Forced Quick Sell''
        then deposit_row header values n l
      else if action = ''Exer and Hold'' \<or> action = ''Sale''
        then exercise_row header values n l
      else if action = ''Journal'' then Inr (Sibling ''tr'' n, l)
      else if action = ''Forced Disbursement'' then Inr (n, l)
      else Inl (UnknownRowType action))"

definition row_step :: "(string \<times> nat) list \<Rightarrow> Node \<Rightarrow> Ledger \<Rightarrow> abort + Node \<times> Ledger" where
  "row_step header n l =
     (case row n of
        Inl a \<Rightarrow> Inl a
      | Inr (n1, Inl msg) \<Rightarrow> Inl (BadRow msg)
      | Inr (n1, Inr values) \<Rightarrow>
          (case index values (at_key header ''Action'') of
             Inl a \<Rightarrow> Inl a
           | Inr action \<Rightarrow> dispatch action header values n1 l))"

lemma row_step_cursor:
  assumes "row_step header n l = Inr (n', l')"
  shows "n' = n \<or> n' = Sibling ''tr'' n"
proof -
  from assms obtain n1 vals where r: "row n = Inr (n1, Inr vals)"
    by (auto simp: row_step_def split: sum.splits)
  from row_restores [OF r] have n1: "n1 = n" .
  from assms r obtain action where ix: "index vals (at_key header ''Action'') = Inr action"
    by (auto simp: row_step_def split: sum.splits)
  have "n' = Sibling ''tr'' n" if "lapse_row header vals n l = Inr (n', l')"
    using that by (auto simp: lapse_row_def split: sum.splits dest: more1_restores)
  moreover have "n' = Sibling ''tr'' n" if "deposit_row header vals n l = Inr (n', l')"
    using that by (auto simp: deposit_row_def split: sum.splits if_splits dest: more_restores)
  moreover have "n' = Sibling ''tr'' n" if "exercise_row header vals n l = Inr (n', l')"
    using that by (auto simp: exercise_row_def split: sum.splits if_splits dest: more_restores)
  ultimately show ?thesis
    using assms r ix n1 by (auto simp: row_step_def dispatch_def split: if_splits)
qed

function rows_loop :: "(string \<times> nat) list \<Rightarrow> Node \<Rightarrow> Ledger \<Rightarrow> abort + Ledger" where
  "rows_loop header n l =
     (if err n \<noteq> None then Inr l
      else case row_step header n l of
          Inl a \<Rightarrow> Inl a
        | Inr (n', l') \<Rightarrow> rows_loop header (Sibling ''tr'' n') l')"
  by pat_completeness auto
termination
proof (relation "measure (\<lambda>(header, n, l). remaining n)")
  show "wf (measure (\<lambda>(header, n, l). remaining n))" by simp
next
  fix header :: "(string \<times> nat) list" and n :: Node and l :: Ledger and r n' l'
  assume ok: "\<not> err n \<noteq> None" and rs: "row_step header n l = Inr r" "(n', l') = r"
  from rs have "row_step header n l = Inr (n', l')" by simp
  from row_step_cursor [OF this] have "remaining (Sibling ''tr'' n') < remaining n"
  proof
    assume "n' = n"
    with ok show ?thesis by (simp add: remaining_Sibling)
  next
    assume "n' = Sibling ''tr'' n"
    with ok remaining_Sibling [of n "''tr''"] remaining_Sibling_le [of "''tr''" "Sibling ''tr'' n"]
    show ?thesis by simp
  qed
  then show "((header, Sibling ''tr'' n', l'), (header, n, l)) \<in> measure (\<lambda>(header, n, l). remaining n)"
    by simp
qed

declare rows_loop.simps [simp del]

text \<open>
  \<open>prelude\<close> is \<^verbatim>\<open>main\<close> from the parsed document to the header mapping,
  \<open>run\<close> adds the loop over the rows, which starts with a \<^verbatim>\<open>Sibling\<close> call and an
  empty ledger; \<open>main\<close> then encodes \<^verbatim>\<open>l.entries\<close>. Its result is what is written to standard
  output, or how the program stopped before writing anything.
\<close>

definition prelude :: "html_Node \<Rightarrow> abort + (string \<times> nat) list \<times> Node" where
  "prelude doc =
     (case findHistory doc [] of
        [] \<Rightarrow> Inl NoHistory
      | r # rs \<Rightarrow>
          (case navigate [NavChild ''table'', NavChild ''tbody'', NavChild ''tr'',
                   NavSibling ''tr'', NavChild ''td'', NavChild ''table'', NavChild ''tbody'']
                  (MkNode (r # rs) (r # rs) None None) of
             Inl a \<Rightarrow> Inl a
           | Inr n \<Rightarrow>
               (case Node n of
                  [] \<Rightarrow> Inl NilDereference
                | c # cs \<Rightarrow>
                    if Type c \<noteq> ElementNode \<or> Data c \<noteq> ''tbody'' then Inl BadTableNode
                    else (case Child ''tr'' n of
                       Inl a \<Rightarrow> Inl a
                     | Inr n1 \<Rightarrow>
                         (case err n1 of
                            Some msg \<Rightarrow> Inl (NavError msg)
                          | None \<Rightarrow>
                              (case row n1 of
                                 Inl a \<Rightarrow> Inl a
                               | Inr (n2, Inl msg) \<Rightarrow> Inl (NoHeader msg)
                               | Inr (n2, Inr headerVals) \<Rightarrow>
                                   Inr (mk_header headerVals, n2)))))))"

definition run :: "html_Node \<Rightarrow> abort + Ledger" where
  "run doc =
     (case prelude doc of
        Inl a \<Rightarrow> Inl a
      | Inr (header, n) \<Rightarrow> rows_loop header (Sibling ''tr'' n) (MkLedger [] None))"

definition main :: "html_Node \<Rightarrow> abort + (string \<times> string) list list" where
  "main doc = (case run doc of Inl a \<Rightarrow> Inl a | Inr l \<Rightarrow> Inr (entries l))"

section \<open>Sample documents\<close>

definition element :: "string \<Rightarrow> html_Node list \<Rightarrow> html_Node" where
  "element tag cs = HtmlNode ElementNode tag [] cs"

definition text_node :: "string \<Rightarrow> html_Node" where
  "text_node s = HtmlNode TextNode s [] []"

definition page :: "html_Node list \<Rightarrow> html_Node" where
  "page anchor_children =
     HtmlNode DocumentNode [] []
       [element ''html'' [element ''head'' [],
          element ''body'' [HtmlNode ElementNode ''a'' [(''name'', ''History'')] anchor_children]]]"

definition history :: "html_Node list \<Rightarrow> html_Node" where
  "history rows =
     page [element ''table'' [element ''tbody'' [element ''tr'' [],
             element ''tr'' [element ''td'' [element ''table'' [element ''tbody'' rows]]]]]]"

definition data_row :: "string list \<Rightarrow> html_Node" where
  "data_row vals = element ''tr'' (map (\<lambda>v. element ''td'' [element ''label'' [text_node v]]) vals)"

definition details_row :: "html_Node list \<Rightarrow> html_Node" where
  "details_row rows =
     element ''tr'' [element ''td'' [element ''div'' [element ''div'' [element ''table'' [], element ''table'' [element ''tbody'' rows]]]]]"

definition lots_row :: "string list \<Rightarrow> string list list \<Rightarrow> html_Node" where
  "lots_row labels rows =
     details_row
       (element ''tr'' (map (\<lambda>h. element ''td'' [element ''b'' [text_node h]]) labels)
        # map (\<lambda>r. element ''tr'' (map (\<lambda>v. element ''td'' [text_node v]) r)) rows)"

definition lapse_page :: html_Node where
  "lapse_page =
     history [data_row [''Date'', ''Action''], data_row [''01/02'', ''Lapse''],
       details_row [element ''tr'' [element ''td'' [element ''b'' [text_node ''Shares:''], text_node '' 5'']]]]"

definition failed_cursor :: Node where
  "failed_cursor = MkNode [] [] (Some ''no sibling tag table'') None"

definition cells_cursor :: Node where
  "cells_cursor =
     MkNode [data_row [''a'', ''b'']]
       [element ''td'' [text_node ''a''], text_node ''x'', element ''td'' [text_node ''b''],
        element ''th'' [], element ''td'' []]
       None None"

section \<open>The sticky error of the cursor\<close>

text \<open>
  Claim C2. Once the error of the cursor is set, \<^verbatim>\<open>Sibling\<close> and \<^verbatim>\<open>Child\<close> leave the
  whole cursor as it is (current node, resume pointer, error and saved checkpoint), and so does
  every sequence of such calls; \<^verbatim>\<open>ChildText\<close> and \<^verbatim>\<open>Text\<close> return the empty string.
\<close>

theorem sticky_error:
  assumes "err n \<noteq> None"
  shows "Sibling tag n = n \<and> Child tag n = Inr n \<and> navigate ops n = Inr n
    \<and> ChildText n = [] \<and> Text n = []"
  using assms
  by (simp add: Sibling_sticky Child_sticky navigate_sticky ChildText_def Text_def)

theorem sticky_error_witness:
  "err failed_cursor \<noteq> None
   \<and> Sibling ''tr'' failed_cursor = failed_cursor
   \<and> Child ''td'' failed_cursor = Inr failed_cursor
   \<and> navigate [NavChild ''tbody'', NavSibling ''tr'', NavChild ''td''] failed_cursor
       = Inr failed_cursor
   \<and> ChildText failed_cursor = [] \<and> Text failed_cursor = []"
proof -
  have "err failed_cursor \<noteq> None" by (simp add: failed_cursor_def)
  from this sticky_error [OF this] show ?thesis by simp
qed

section \<open>Navigation among siblings and into children\<close>

text \<open>
  The nodes the cursor stands on after each call of a sequence of \<^verbatim>\<open>Sibling\<close> calls.
\<close>

fun visited :: "string list \<Rightarrow> Node \<Rightarrow> ptr list" where
  "visited [] n = []"
| "visited (tag # tags) n = Node (Sibling tag n) # visited tags (Sibling tag n)"

lemma visited_order:
  "err (fold Sibling tags n) = None \<Longrightarrow>
     (\<forall>p\<in>set (visited tags n). p \<noteq> [] \<and> suffix p (nxt n))
     \<and> sorted_wrt (\<lambda>p q. strict_suffix q p) (visited tags n)"
proof (induction tags arbitrary: n)
  case Nil
  show ?case by simp
next
  case (Cons tag tags)
  let ?n' = "Sibling tag n"
  from Cons.prems have fin: "err (fold Sibling tags ?n') = None" by simp
  have ok: "err ?n' = None"
  proof (rule ccontr)
    assume "err ?n' \<noteq> None"
    with fold_Sibling_sticky [of ?n' tags] fin show False by simp
  qed
  note s = Sibling_ok [OF ok]
  note ih = Cons.IH [OF fin]
  have later: "strict_suffix p (Node ?n')" "suffix p (nxt n)" if "p \<in> set (visited tags ?n')" for p
  proof -
    from ih that have "suffix p (nxt ?n')" by blast
    with s have sp: "suffix p (tl (Node ?n'))" by simp
    from s obtain c cs where ncs: "Node ?n' = c # cs" by (cases "Node ?n'") auto
    with sp show "strict_suffix p (Node ?n')"
      by (auto simp: strict_suffix_def suffix_def)
    from sp ncs have "suffix p (Node ?n')" by (simp add: suffix_Cons)
    with s show "suffix p (nxt n)" by (blast intro: suffix_order.trans)
  qed
  from s ih later show ?case by auto
qed

text \<open>
  Claim C6. On a cursor with no error, \<^verbatim>\<open>Sibling\<close> scans from the resume pointer: it
  skips the nodes that are not elements with the tag, stands on the first that is one and
  resumes after it, or sets the error when there is none. When a sequence of \<^verbatim>\<open>Sibling\<close>
  calls has all succeeded, each node visited lies at or after the resume pointer the sequence
  started from and strictly after the nodes visited before it, so none is visited twice.
  \<^verbatim>\<open>Child\<close> does the same scan from the first child of the current node: it moves to the
  first child element with the tag, or sets the error.
\<close>

theorem sibling_navigation:
  assumes "err n = None"
  shows "((\<exists>skipped c rest. nxt n = skipped @ c # rest \<and> (\<forall>x\<in>set skipped. \<not> has_tag tag x)
            \<and> has_tag tag c \<and> Sibling tag n = MkNode (c # rest) rest None (stack n))
       \<or> ((\<forall>x\<in>set (nxt n). \<not> has_tag tag x)
            \<and> Sibling tag n = MkNode (Node n) (nxt n) (Some (''no sibling tag '' @ tag)) (stack n)))
    \<and> (err (fold Sibling tags n) = None \<longrightarrow>
          (\<forall>p\<in>set (visited tags n). p \<noteq> [] \<and> suffix p (nxt n))
          \<and> sorted_wrt (\<lambda>p q. strict_suffix q p) (visited tags n)
          \<and> distinct (visited tags n))
    \<and> (\<forall>p ps. Node n = p # ps \<longrightarrow>
          (\<exists>skipped c rest. children p = skipped @ c # rest
              \<and> (\<forall>x\<in>set skipped. \<not> has_tag tag x) \<and> has_tag tag c
              \<and> Child tag n = Inr (MkNode (c # rest) rest None (stack n)))
          \<or> ((\<forall>x\<in>set (children p). \<not> has_tag tag x)
              \<and> Child tag n = Inr (MkNode (children p) (children p)
                    (Some (''no sibling tag '' @ tag)) (stack n))))"
proof (intro conjI impI allI)
  show "(\<exists>skipped c rest. nxt n = skipped @ c # rest \<and> (\<forall>x\<in>set skipped. \<not> has_tag tag x)
            \<and> has_tag tag c \<and> Sibling tag n = MkNode (c # rest) rest None (stack n))
       \<or> ((\<forall>x\<in>set (nxt n). \<not> has_tag tag x)
            \<and> Sibling tag n = MkNode (Node n) (nxt n) (Some (''no sibling tag '' @ tag)) (stack n))"
    by (rule Sibling_cases [OF assms])
next
  assume fin: "err (fold Sibling tags n) = None"
  from visited_order [OF fin]
  show "\<forall>p\<in>set (visited tags n). p \<noteq> [] \<and> suffix p (nxt n)"
    and sw: "sorted_wrt (\<lambda>p q. strict_suffix q p) (visited tags n)" by blast+
  have "distinct xs" if "sorted_wrt (\<lambda>p q. strict_suffix q p) xs" for xs :: "ptr list"
    using that by (induction xs) auto
  from this [OF sw] show "distinct (visited tags n)" .
next
  fix p ps
  assume np: "Node n = p # ps"
  let ?m = "MkNode (children p) (children p) (err n) (stack n)"
  have c: "Child tag n = Inr (Sibling tag ?m)"
    using assms np by (simp add: Child_def)
  have "err ?m = None" using assms by simp
  from Sibling_cases [OF this, of tag] c
  show "(\<exists>skipped c rest. children p = skipped @ c # rest
              \<and> (\<forall>x\<in>set skipped. \<not> has_tag tag x) \<and> has_tag tag c
              \<and> Child tag n = Inr (MkNode (c # rest) rest None (stack n)))
          \<or> ((\<forall>x\<in>set (children p). \<not> has_tag tag x)
              \<and> Child tag n = Inr (MkNode (children p) (children p)
                    (Some (''no sibling tag '' @ tag)) (stack n)))"
    by simp
qed

theorem sibling_navigation_witness:
  "err cells_cursor = None
   \<and> err (fold Sibling [''td'', ''td'', ''td''] cells_cursor) = None
   \<and> sorted_wrt (\<lambda>p q. strict_suffix q p) (visited [''td'', ''td'', ''td''] cells_cursor)
   \<and> distinct (visited [''td'', ''td'', ''td''] cells_cursor)
   \<and> Child ''td'' cells_cursor
       = Inr (MkNode [element ''td'' [element ''label'' [text_node ''a'']],
                      element ''td'' [element ''label'' [text_node ''b'']]]
                [element ''td'' [element ''label'' [text_node ''b'']]] None None)"
proof -
  have ok: "err cells_cursor = None" by (simp add: cells_cursor_def)
  have fin: "err (fold Sibling [''td'', ''td'', ''td''] cells_cursor) = None" by code_simp
  have ch: "Child ''td'' cells_cursor
       = Inr (MkNode [element ''td'' [element ''label'' [text_node ''a'']],
                      element ''td'' [element ''label'' [text_node ''b'']]]
                [element ''td'' [element ''label'' [text_node ''b'']]] None None)"
    by code_simp
  from sibling_navigation [OF ok, of "''td''" "[''td'', ''td'', ''td'']"] fin
  have "sorted_wrt (\<lambda>p q. strict_suffix q p) (visited [''td'', ''td'', ''td''] cells_cursor)
    \<and> distinct (visited [''td'', ''td'', ''td''] cells_cursor)"
    by blast
  with ok fin ch show ?thesis by blast
qed

section \<open>Checkpoints\<close>

text \<open>
  Sequences of cursor calls with \<^verbatim>\<open>Push\<close> and \<^verbatim>\<open>Pop\<close> among them. A sequence is
  balanced from depth \<open>d\<close> when every \<^verbatim>\<open>Pop\<close> of it has a \<^verbatim>\<open>Push\<close> of the sequence
  or one of the \<open>d\<close> open ones before it, and none stays open at its end. \<open>checkpoints\<close> is
  the chain of saved cursors reached through the \<^verbatim>\<open>stack\<close> field.
\<close>

datatype cursor_op = DoPush | DoPop | DoChild string | DoSibling string

fun perform :: "cursor_op list \<Rightarrow> Node \<Rightarrow> abort + Node" where
  "perform [] n = Inr n"
| "perform (DoPush # ops) n = perform ops (Push n)"
| "perform (DoPop # ops) n = (case Pop n of Inl a \<Rightarrow> Inl a | Inr n' \<Rightarrow> perform ops n')"
| "perform (DoChild tag # ops) n =
     (case Child tag n of Inl a \<Rightarrow> Inl a | Inr n' \<Rightarrow> perform ops n')"
| "perform (DoSibling tag # ops) n = perform ops (Sibling tag n)"

fun balanced :: "nat \<Rightarrow> cursor_op list \<Rightarrow> bool" where
  "balanced d [] = (d = 0)"
| "balanced d (DoPush # ops) = balanced (Suc d) ops"
| "balanced d (DoPop # ops) = (0 < d \<and> balanced (d - 1) ops)"
| "balanced d (DoChild tag # ops) = balanced d ops"
| "balanced d (DoSibling tag # ops) = balanced d ops"

fun checkpoints :: "Node \<Rightarrow> Node list" where
  "checkpoints (MkNode p q x None) = []"
| "checkpoints (MkNode p q x (Some m)) = m # checkpoints m"

lemma checkpoints_stack: "stack n = stack m \<Longrightarrow> checkpoints n = checkpoints m"
  by (cases n; cases m; cases "stack n") auto

lemma checkpoints_Push: "checkpoints (Push n) = n # checkpoints n"
  by (simp add: Push_def)

lemma checkpoints_Pop: "Pop n = Inr m \<Longrightarrow> checkpoints n = m # checkpoints m"
  by (cases n) (auto simp: Pop_def split: option.splits)

lemma perform_checkpoints:
  "balanced d ops \<Longrightarrow> perform ops m = Inr m' \<Longrightarrow> checkpoints m' = drop d (checkpoints m)"
proof (induction ops arbitrary: d m)
  case Nil
  then show ?case by simp
next
  case (Cons op ops)
  show ?case
  proof (cases op)
    case DoPush
    with Cons.prems Cons.IH [of "Suc d" "Push m"] show ?thesis
      by (simp add: checkpoints_Push)
  next
    case DoPop
    with Cons.prems obtain s where s: "Pop m = Inr s" and r: "perform ops s = Inr m'"
      and d: "0 < d" "balanced (d - 1) ops"
      by (auto split: sum.splits)
    from Cons.IH [OF d(2) r] checkpoints_Pop [OF s] d(1) show ?thesis
      by (cases d) simp_all
  next
    case (DoChild tag)
    with Cons.prems obtain s where s: "Child tag m = Inr s" and r: "perform ops s = Inr m'"
      and d: "balanced d ops"
      by (auto split: sum.splits)
    from Cons.IH [OF d r] checkpoints_stack [OF Child_stack [OF s]] show ?thesis by simp
  next
    case (DoSibling tag)
    with Cons.prems have r: "perform ops (Sibling tag m) = Inr m'" and d: "balanced d ops"
      by simp_all
    from Cons.IH [OF d r] checkpoints_stack [OF Sibling_stack [of tag m]] show ?thesis by simp
  qed
qed

text \<open>
  Claim C8. \<^verbatim>\<open>Push\<close> saves the whole cursor, the checkpoint saved before included, so the
  checkpoints form a stack: after \<^verbatim>\<open>Push\<close> and any balanced sequence of navigation calls
  and inner \<^verbatim>\<open>Push\<close>/\<^verbatim>\<open>Pop\<close> pairs that runs to its end, \<^verbatim>\<open>Pop\<close> gives back
  the cursor as it was at the \<^verbatim>\<open>Push\<close>. The extractors \<^verbatim>\<open>row\<close>, \<^verbatim>\<open>more\<close> and
  \<^verbatim>\<open>more1\<close>, which nest up to three checkpoints, return the cursor they were given.
\<close>

theorem checkpoints_lifo:
  assumes "balanced 0 ops" and "perform ops (Push n) = Inr n'"
  shows "Pop (Push n) = Inr n \<and> stack (Push n) = Some n \<and> Pop n' = Inr n
    \<and> (\<forall>m r. row n = Inr (m, r) \<longrightarrow> m = n)
    \<and> (\<forall>m r. more n = Inr (m, r) \<longrightarrow> m = n)
    \<and> (\<forall>m r. more1 n = Inr (m, r) \<longrightarrow> m = n)"
proof -
  from perform_checkpoints [OF assms] have "checkpoints n' = n # checkpoints n"
    by (simp add: checkpoints_Push)
  then have "stack n' = Some n" by (cases n'; cases "stack n'") auto
  then show ?thesis
    by (auto simp: Pop_def Push_def dest: row_restores more_restores more1_restores)
qed

definition nested_ops :: "cursor_op list" where
  "nested_ops =
     [DoChild ''td'', DoPush, DoChild ''label'', DoPush, DoSibling ''label'', DoPop,
      DoSibling ''td'', DoPop, DoSibling ''td'']"

theorem checkpoints_lifo_witness:
  "balanced 0 nested_ops
   \<and> (\<exists>n'. perform nested_ops (Push cells_cursor) = Inr n' \<and> n' \<noteq> Push cells_cursor
         \<and> Pop n' = Inr cells_cursor)"
proof -
  have b: "balanced 0 nested_ops" by code_simp
  have "\<not> isl (perform nested_ops (Push cells_cursor))" by code_simp
  then obtain n' where p: "perform nested_ops (Push cells_cursor) = Inr n'"
    by (cases "perform nested_ops (Push cells_cursor)") auto
  have "perform nested_ops (Push cells_cursor) \<noteq> Inr (Push cells_cursor)" by code_simp
  with p have "n' \<noteq> Push cells_cursor" by simp
  with b p checkpoints_lifo [OF b p] show ?thesis by blast
qed

section \<open>The check of the table body\<close>

text \<open>
  Claim C9. The claim is that the test of the node type and tag after the descent to the table
  body never reads a \<^verbatim>\<open>nil\<close> node. The test comes before the test of \<^verbatim>\<open>n.Ok()\<close>: for
  every document whose history anchor has no children, the first \<^verbatim>\<open>Child\<close> leaves the
  current node \<^verbatim>\<open>nil\<close> with the error set, the rest of the chain does nothing, and
  reading \<^verbatim>\<open>n.Type\<close> panics with exit status 2.
\<close>

theorem tbody_check_nil:
  assumes "findHistory doc [] = r # rs" and "children r = []"
  shows "navigate [NavChild ''table'', NavChild ''tbody'', NavChild ''tr'', NavSibling ''tr'',
        NavChild ''td'', NavChild ''table'', NavChild ''tbody'']
       (MkNode (r # rs) (r # rs) None None)
       = Inr (MkNode [] [] (Some ''no sibling tag table'') None)
    \<and> main doc = Inl NilDereference
    \<and> exit_status NilDereference = 2"
proof -
  let ?chain = "[NavChild ''table'', NavChild ''tbody'', NavChild ''tr'', NavSibling ''tr'',
        NavChild ''td'', NavChild ''table'', NavChild ''tbody'']"
  let ?failed = "MkNode [] [] (Some ''no sibling tag table'') None"
  from assms(2) have first: "Child ''table'' (MkNode (r # rs) (r # rs) None None) = Inr ?failed"
    by (simp add: Child_def Sibling_def)
  have "navigate [NavChild ''tbody'', NavChild ''tr'', NavSibling ''tr'',
        NavChild ''td'', NavChild ''table'', NavChild ''tbody''] ?failed = Inr ?failed"
    by (rule navigate_sticky) simp
  with first have nav: "navigate ?chain (MkNode (r # rs) (r # rs) None None) = Inr ?failed"
    by simp
  with assms(1) have "prelude doc = Inl NilDereference" by (simp add: prelude_def)
  then have "main doc = Inl NilDereference" by (simp add: run_def main_def)
  with nav show ?thesis by simp
qed

theorem tbody_check_nil_witness:
  "findHistory (page []) [] = [HtmlNode ElementNode ''a'' [(''name'', ''History'')] []]
   \<and> children (HtmlNode ElementNode ''a'' [(''name'', ''History'')] []) = []
   \<and> main (page []) = Inl NilDereference"
proof -
  have f: "findHistory (page []) [] = [HtmlNode ElementNode ''a'' [(''name'', ''History'')] []]"
    by code_simp
  from tbody_check_nil [OF f] f show ?thesis by simp
qed

section \<open>Runs of the loop over the rows\<close>

text \<open>
  The states in which the loop over the rows tests \<^verbatim>\<open>n.Ok()\<close>: \<open>reaches header s t\<close> when
  the loop started in state \<open>s\<close> (cursor and ledger) comes to \<open>t\<close> after some rows, each
  processed without stopping the program. A row that stops the program stops the run.
\<close>

inductive reaches ::
  "(string \<times> nat) list \<Rightarrow> Node \<times> Ledger \<Rightarrow> Node \<times> Ledger \<Rightarrow> bool"
  for header :: "(string \<times> nat) list" where
  reaches_start: "reaches header s s"
| reaches_step:
    "reaches header s (n, l) \<Longrightarrow> err n = None \<Longrightarrow> row_step header n l = Inr (n', l')
       \<Longrightarrow> reaches header s (Sibling ''tr'' n', l')"

lemma rows_loop_step:
  "err n = None \<Longrightarrow> row_step header n l = Inr (n', l')
     \<Longrightarrow> rows_loop header n l = rows_loop header (Sibling ''tr'' n') l'"
  by (subst rows_loop.simps) simp

lemma rows_loop_abort:
  "err n = None \<Longrightarrow> row_step header n l = Inl a \<Longrightarrow> rows_loop header n l = Inl a"
  by (subst rows_loop.simps) simp

lemma rows_loop_reaches:
  "reaches header s t \<Longrightarrow> rows_loop header (fst s) (snd s) = rows_loop header (fst t) (snd t)"
  by (induction rule: reaches.induct) (simp_all add: rows_loop_step)

lemma run_abort:
  assumes "prelude doc = Inr (header, n0)"
    and "reaches header (Sibling ''tr'' n0, MkLedger [] None) (n, l)"
    and "err n = None" and "row_step header n l = Inl a"
  shows "run doc = Inl a" and "main doc = Inl a"
proof -
  from rows_loop_reaches [OF assms(2)] rows_loop_abort [OF assms(3,4)]
  have "rows_loop header (Sibling ''tr'' n0) (MkLedger [] None) = Inl a" by simp
  with assms(1) show "run doc = Inl a" by (simp add: run_def)
  then show "main doc = Inl a" by (simp add: main_def)
qed

section \<open>Unknown actions\<close>

definition known_actions :: "string set" where
  "known_actions =
     {''Deposit'', ''Forced Quick Sell'', ''Lapse'', ''Exer and Hold'', ''Sale'', ''Journal'',
      ''Forced Disbursement''}"

text \<open>
  Claim C7. When the loop comes to a data row whose action, the value in the column that
  \<^verbatim>\<open>header["Action"]\<close> gives, is none of the seven known ones, that row stops the
  program through \<^verbatim>\<open>log.Fatalf\<close>: the run writes nothing and exits with status 1.
\<close>

theorem unknown_action_fatal:
  assumes "prelude doc = Inr (header, n0)"
    and "reaches header (Sibling ''tr'' n0, MkLedger [] None) (n, l)"
    and "err n = None"
    and "row n = Inr (n1, Inr vals)"
    and "index vals (at_key header ''Action'') = Inr action"
    and "action \<notin> known_actions"
  shows "row_step header n l = Inl (UnknownRowType action)
    \<and> main doc = Inl (UnknownRowType action)
    \<and> exit_status (UnknownRowType action) = 1"
proof -
  from assms(4,5,6) have "row_step header n l = Inl (UnknownRowType action)"
    by (simp add: row_step_def dispatch_def known_actions_def)
  with run_abort(2) [OF assms(1,2,3) this] show ?thesis by simp
qed

definition bogus_page :: html_Node where
  "bogus_page =
     history [data_row [''Date'', ''Action''], data_row [''01/02'', ''Journal''], details_row [],
       data_row [''01/03'', ''Bogus'']]"

theorem unknown_action_fatal_witness:
  "main bogus_page = Inl (UnknownRowType ''Bogus'') \<and> exit_status (UnknownRowType ''Bogus'') = 1"
proof -
  let ?p = "projr (prelude bogus_page)"
  let ?h = "fst ?p" and ?n0 = "snd ?p"
  let ?l = "MkLedger [] None"
  let ?n1 = "Sibling ''tr'' ?n0"
  let ?n2 = "Sibling ''tr'' (Sibling ''tr'' ?n1)"
  have "\<not> isl (prelude bogus_page)" by code_simp
  then have p: "prelude bogus_page = Inr (?h, ?n0)" by (cases "prelude bogus_page") auto
  have ok1: "err ?n1 = None" by code_simp
  have s1: "row_step ?h ?n1 ?l = Inr (Sibling ''tr'' ?n1, ?l)" by code_simp
  from reaches_step [OF reaches_start ok1 s1] have r: "reaches ?h (?n1, ?l) (?n2, ?l)" .
  have ok2: "err ?n2 = None" by code_simp
  have row2: "row ?n2 = Inr (?n2, Inr [''01/03'', ''Bogus''])" by code_simp
  have ix: "index [''01/03'', ''Bogus''] (at_key ?h ''Action'') = Inr ''Bogus''" by code_simp
  have un: "''Bogus'' \<notin> known_actions" by (simp add: known_actions_def)
  from unknown_action_fatal [OF p r ok2 row2 ix un] show ?thesis by simp
qed

section \<open>A header row without an Action column\<close>

lemma mk_header_keys_upto:
  "n \<le> length hv \<Longrightarrow>
     fst ` set (fold (\<lambda>i h. AList.update (hv ! i) i h) [0..<n] []) = set (take n hv)"
proof (induction n)
  case 0
  show ?case by simp
next
  case (Suc n)
  then have "n < length hv" by simp
  with Suc.IH show ?case
    by (simp add: AList.dom_update take_Suc_conv_app_nth)
qed

lemma mk_header_keys: "fst ` set (mk_header hv) = set hv"
  using mk_header_keys_upto [of "length hv" hv] by (simp add: mk_header_def)

lemma at_key_missing: "k \<notin> set hv \<Longrightarrow> at_key (mk_header hv) k = 0"
proof -
  assume "k \<notin> set hv"
  then have "k \<notin> fst ` set (mk_header hv)" by (simp add: mk_header_keys)
  then have "map_of (mk_header hv) k = None" by (simp add: map_of_eq_None_iff)
  then show ?thesis by (simp add: at_key_def)
qed

text \<open>
  Claim C10. When no cell of the header row is labelled "Action", the lookup
  \<^verbatim>\<open>header["Action"]\<close> gives 0 and nothing reports the missing column: every data row
  is classified by the value of its first cell, and a data row with no cell at all panics at
  \<^verbatim>\<open>values[0]\<close>.
\<close>

theorem missing_action_column:
  assumes "''Action'' \<notin> set headerVals"
  shows "at_key (mk_header headerVals) ''Action'' = 0
    \<and> index [] (at_key (mk_header headerVals) ''Action'') = Inl IndexOutOfRange
    \<and> index (v # vs) (at_key (mk_header headerVals) ''Action'') = Inr v
    \<and> (row n = Inr (n1, Inr (v # vs)) \<longrightarrow>
         row_step (mk_header headerVals) n l = dispatch v (mk_header headerVals) (v # vs) n1 l)
    \<and> (row n = Inr (n1, Inr []) \<longrightarrow>
         row_step (mk_header headerVals) n l = Inl IndexOutOfRange)"
  using at_key_missing [OF assms] by (simp add: index_def row_step_def)

definition no_action_page :: html_Node where
  "no_action_page =
     history [data_row [''Kind'', ''Date''], data_row [''Journal'', ''01/02''], details_row [],
       data_row [''Forced Disbursement'', ''01/03'']]"

theorem missing_action_column_witness:
  "''Action'' \<notin> set [''Kind'', ''Date'']
   \<and> prelude no_action_page
       = Inr (mk_header [''Kind'', ''Date''], snd (projr (prelude no_action_page)))
   \<and> row_step (mk_header [''Kind'', ''Date''])
        (Sibling ''tr'' (snd (projr (prelude no_action_page)))) (MkLedger [] None)
       = dispatch ''Journal'' (mk_header [''Kind'', ''Date'']) [''Journal'', ''01/02'']
           (Sibling ''tr'' (snd (projr (prelude no_action_page)))) (MkLedger [] None)
   \<and> main no_action_page = Inr []"
proof -
  let ?n = "Sibling ''tr'' (snd (projr (prelude no_action_page)))"
  have a: "''Action'' \<notin> set [''Kind'', ''Date'']" by simp
  have p: "prelude no_action_page
       = Inr (mk_header [''Kind'', ''Date''], snd (projr (prelude no_action_page)))"
    by code_simp
  have r: "row ?n = Inr (?n, Inr [''Journal'', ''01/02''])" by code_simp
  have m: "main no_action_page = Inr []" by code_simp
  from missing_action_column [OF a, of "''Journal''" "[''01/02'']" ?n ?n "MkLedger [] None"] r
  have "row_step (mk_header [''Kind'', ''Date'']) ?n (MkLedger [] None)
       = dispatch ''Journal'' (mk_header [''Kind'', ''Date'']) [''Journal'', ''01/02'']
           ?n (MkLedger [] None)"
    by blast
  with a p m show ?thesis by blast
qed

section \<open>What the rows write into the ledger\<close>

text \<open>
  \<open>put_all kvs m\<close> is the map \<open>m\<close> after the pairs \<open>kvs\<close> have been written in order,
  \<open>all_entries\<close> the entries of a ledger, the committed ones followed by the pending one when
  it is not empty. \<open>header_fields\<close> are the fields of a primary row under all its column
  labels, \<open>core_fields\<close> those under the four core keys.
\<close>

fun put_all :: "('k \<times> 'v) list \<Rightarrow> ('k \<times> 'v) list \<Rightarrow> ('k \<times> 'v) list" where
  "put_all [] m = m"
| "put_all ((k, v) # kvs) m = put_all kvs (AList.update k v m)"

definition all_entries :: "Ledger \<Rightarrow> (string \<times> string) list list" where
  "all_entries l =
     entries l @ (case e l of None \<Rightarrow> [] | Some m \<Rightarrow> if m = [] then [] else [m])"

definition header_fields :: "(string \<times> nat) list \<Rightarrow> string list \<Rightarrow> (string \<times> string) list" where
  "header_fields header vals = map (\<lambda>(k, i). (k, vals ! i)) header"

definition core_fields :: "(string \<times> nat) list \<Rightarrow> string list \<Rightarrow> (string \<times> string) list" where
  "core_fields header vals = map (\<lambda>k. (k, vals ! at_key header k)) coreKeys"

lemma map_of_put_all: "map_of (put_all kvs m) = map_of m ++ map_of (rev kvs)"
proof (induction kvs arbitrary: m)
  case Nil
  show ?case by simp
next
  case (Cons kv kvs)
  obtain k v where kv: "kv = (k, v)" by (cases kv)
  have "(map_of m)(k \<mapsto> v) = map_of m ++ [k \<mapsto> v]" by simp
  with Cons.IH [of "AList.update k v m"] kv show ?case
    by (simp add: AList.update_conv' del: map_add_upd)
qed

lemma map_of_rev_distinct: "distinct (map fst kvs) \<Longrightarrow> map_of (rev kvs) = map_of kvs"
proof (induction kvs)
  case Nil
  show ?case by simp
next
  case (Cons kv kvs)
  obtain k v where kv: "kv = (k, v)" by (cases kv)
  with Cons.prems have "map_of kvs k = None" by (simp add: map_of_eq_None_iff)
  with Cons kv show ?case
    by (auto simp: fun_eq_iff map_add_def split: option.splits)
qed

lemma distinct_put_all: "distinct (map fst m) \<Longrightarrow> distinct (map fst (put_all kvs m))"
  by (induction kvs arbitrary: m) (auto simp: AList.distinct_update)

lemma put_all_nonempty: "m \<noteq> [] \<or> kvs \<noteq> [] \<Longrightarrow> put_all kvs m \<noteq> []"
  by (induction kvs arbitrary: m) auto

lemma put_all_keys: "fst ` set (put_all kvs m) = fst ` set kvs \<union> fst ` set m"
proof (induction kvs arbitrary: m)
  case Nil
  show ?case by simp
next
  case (Cons kv kvs)
  obtain k v where kv: "kv = (k, v)" by (cases kv)
  have "fst ` set (put_all kvs (AList.update k v m))
      = fst ` set kvs \<union> ({k} \<union> fst ` set m)"
    by (simp only: Cons.IH AList.dom_update)
  with kv show ?case by auto
qed

lemma Write_Some:
  "Write k v (MkLedger es (Some m)) = Inr (MkLedger es (Some (AList.update k v m)))"
  by (simp add: Write_def)

lemma write_entry_Some:
  "write_entry kvs (MkLedger es (Some m)) = Inr (MkLedger es (Some (put_all kvs m)))"
  by (induction kvs arbitrary: m) (auto simp: Write_Some)

lemma write_header_Some:
  "write_header header vals (MkLedger es (Some m)) =
     (if \<forall>(k, i)\<in>set header. i < length vals
      then Inr (MkLedger es (Some (put_all (header_fields header vals) m)))
      else Inl IndexOutOfRange)"
proof (induction header arbitrary: m)
  case Nil
  show ?case by (simp add: header_fields_def)
next
  case (Cons ki header)
  obtain k i where ki: "ki = (k, i)" by (cases ki)
  show ?case
  proof (cases "i < length vals")
    case True
    with ki Cons.IH [of "AList.update k (vals ! i) m"] show ?thesis
      by (simp add: index_def Write_Some header_fields_def)
  next
    case False
    with ki show ?thesis by (simp add: index_def)
  qed
qed

lemma write_core_Some:
  "write_core ks header vals (MkLedger es (Some m)) =
     (if \<forall>k\<in>set ks. at_key header k < length vals
      then Inr (MkLedger es (Some (put_all (map (\<lambda>k. (k, vals ! at_key header k)) ks) m)))
      else Inl IndexOutOfRange)"
proof (induction ks arbitrary: m)
  case Nil
  show ?case by simp
next
  case (Cons k ks)
  show ?case
  proof (cases "at_key header k < length vals")
    case True
    with Cons.IH [of "AList.update k (vals ! at_key header k) m"] show ?thesis
      by (simp add: index_def Write_Some)
  next
    case False
    then show ?thesis by (simp add: index_def)
  qed
qed

lemma Next_eq: "Next l = MkLedger (all_entries l) (Some [])"
  by (cases l) (auto simp: Next_def all_entries_def split: option.splits)

lemma all_entries_pending: "m \<noteq> [] \<Longrightarrow> all_entries (MkLedger es (Some m)) = es @ [m]"
  by (simp add: all_entries_def)

definition fan_entry ::
  "(string \<times> nat) list \<Rightarrow> string list \<Rightarrow> (string \<times> string) list \<Rightarrow> (string \<times> string) list" where
  "fan_entry header vals m = put_all m (put_all (core_fields header vals) [])"

lemma fan_out_entries:
  assumes "\<forall>k\<in>set coreKeys. at_key header k < length vals"
  shows "\<exists>l'. fan_out ds header vals l = Inr l'
    \<and> all_entries l' = all_entries l @ map (fan_entry header vals) ds"
proof (induction ds arbitrary: l)
  case Nil
  show ?case by simp
next
  case (Cons m ds)
  let ?kvs = "fan_entry header vals m"
  let ?l2 = "MkLedger (all_entries l) (Some ?kvs)"
  have "core_fields header vals \<noteq> []" by (simp add: core_fields_def coreKeys_def)
  then have ne: "?kvs \<noteq> []" by (simp add: put_all_nonempty fan_entry_def)
  have "write_core coreKeys header vals (Next l)
      = Inr (MkLedger (all_entries l) (Some (put_all (core_fields header vals) [])))"
    using assms write_core_Some [of coreKeys header vals "all_entries l" "[]"]
    by (simp add: Next_eq core_fields_def)
  then have step: "fan_out (m # ds) header vals l = fan_out ds header vals ?l2"
    by (simp add: write_entry_Some fan_entry_def)
  from Cons.IH [of ?l2] obtain l' where "fan_out ds header vals ?l2 = Inr l'"
    and "all_entries l' = all_entries ?l2 @ map (fan_entry header vals) ds"
    by blast
  with step all_entries_pending [OF ne, of "all_entries l"] show ?case by simp
qed

lemma fan_out_ragged:
  assumes "\<not> (\<forall>k\<in>set coreKeys. at_key header k < length vals)"
  shows "fan_out (m # ms) header vals l = Inl IndexOutOfRange"
proof -
  from assms have "write_core coreKeys header vals (MkLedger (all_entries l) (Some []))
      = Inl IndexOutOfRange"
    by (auto simp: write_core_Some)
  then show ?thesis by (simp add: Next_eq)
qed

lemma map_of_fan_entry:
  assumes "distinct (map fst m)"
  shows "map_of (fan_entry header vals m) = map_of (core_fields header vals) ++ map_of m"
proof -
  have "distinct (map fst (core_fields header vals))"
    by (simp add: core_fields_def coreKeys_def)
  with assms show ?thesis
    by (simp add: fan_entry_def map_of_put_all map_of_rev_distinct)
qed

lemma distinct_mk_header_upto:
  "distinct (map fst (fold (\<lambda>i h. AList.update (hv ! i) i h) [0..<n] []))"
  by (induction n) (simp_all add: AList.distinct_update)

lemma distinct_mk_header: "distinct (map fst (mk_header hv))"
  by (simp add: mk_header_def distinct_mk_header_upto)

lemma prelude_header:
  assumes "prelude doc = Inr (header, n0)"
  shows "\<exists>hv. header = mk_header hv"
proof (cases "findHistory doc []")
  case Nil
  with assms show ?thesis by (simp add: prelude_def)
next
  case (Cons r rs)
  let ?chain = "[NavChild ''table'', NavChild ''tbody'', NavChild ''tr'',
                   NavSibling ''tr'', NavChild ''td'', NavChild ''table'', NavChild ''tbody'']"
  from assms Cons obtain n where
    nav: "navigate ?chain (MkNode (r # rs) (r # rs) None None) = Inr n"
    by (cases "navigate ?chain (MkNode (r # rs) (r # rs) None None)") (simp_all add: prelude_def)
  from assms Cons nav obtain c cs where nd: "Node n = c # cs"
    by (cases "Node n") (simp_all add: prelude_def)
  from assms Cons nav nd obtain n1 where ch: "Child ''tr'' n = Inr n1"
    by (cases "Child ''tr'' n") (simp_all add: prelude_def split: if_splits)
  from assms Cons nav nd ch obtain n2 r2 where rw: "row n1 = Inr (n2, r2)"
    by (cases "row n1") (auto simp: prelude_def split: if_splits option.splits)
  from assms Cons nav nd ch rw show ?thesis
    by (cases r2) (auto simp: prelude_def split: if_splits option.splits)
qed

lemma prelude_distinct: "prelude doc = Inr (header, n0) \<Longrightarrow> distinct (map fst header)"
  by (auto dest: prelude_header simp: distinct_mk_header)

lemma map_of_header_fields:
  assumes "distinct (map fst header)"
  shows "map_of (put_all (header_fields header vals) [])
    = (\<lambda>k. map_option (\<lambda>i. vals ! i) (map_of header k))"
proof -
  have "map fst (header_fields header vals) = map fst header"
    by (simp add: header_fields_def case_prod_unfold)
  with assms have "distinct (map fst (header_fields header vals))" by simp
  then have "map_of (put_all (header_fields header vals) []) = map_of (header_fields header vals)"
    by (simp add: map_of_put_all map_of_rev_distinct)
  also have "\<dots> = (\<lambda>k. map_option (\<lambda>i. vals ! i) (map_of header k))"
    by (simp add: header_fields_def map_of_map fun_eq_iff)
  finally show ?thesis .
qed

lemma more_cells_distinct:
  "more_cells hs n i m = (n', i', m') \<Longrightarrow> distinct (map fst m) \<Longrightarrow> distinct (map fst m')"
proof (induction hs n i m rule: more_cells.induct)
  case (1 hs n i m)
  note unf = more_cells.simps [of hs n i m]
  show ?case
  proof (cases "err n = None \<and> i < length hs")
    case True
    with "1.prems" unf "1.IH" [OF True] show ?thesis by (simp add: AList.distinct_update)
  next
    case False
    with "1.prems" unf show ?thesis by auto
  qed
qed

lemma more_rows_distinct:
  "more_rows hs n acc = Inr (n', es) \<Longrightarrow> \<forall>m\<in>set acc. distinct (map fst m)
     \<Longrightarrow> \<forall>m\<in>set es. distinct (map fst m)"
proof (induction hs n acc rule: more_rows.induct)
  case (1 hs n acc)
  show ?case
  proof (cases "err n \<noteq> None")
    case True
    with "1.prems" more_rows.simps [of hs n acc] show ?thesis by simp
  next
    case False
    then have ok: "err n = None" by simp
    from more_rows_step [OF ok "1.prems"(1)] obtain n1 n2 i m where
      c: "Child ''td'' (Push n) = Inr n1" and mc: "more_cells hs n1 0 [] = (n2, i, m)"
      and p: "Pop n2 = Inr n"
      and r: "more_rows hs (Sibling ''tr'' n) (if i = length hs then acc @ [m] else acc) = Inr (n', es)"
      by blast
    from more_cells_distinct [OF mc] have "distinct (map fst m)" by simp
    with "1.prems"(2) have "\<forall>x\<in>set (if i = length hs then acc @ [m] else acc). distinct (map fst x)"
      by simp
    from "1.IH" [OF False c mc [symmetric] refl p r this] show ?thesis .
  qed
qed

lemma more_distinct:
  assumes "more n = Inr (n', Inr es)"
  shows "\<forall>m\<in>set es. distinct (map fst m)"
proof -
  from assms obtain n1 n2 where "more_table n1 = Inr (n2, es)"
    by (auto simp: more_def split: sum.splits option.splits)
  then obtain hs m3 where "more_rows hs m3 [] = Inr (n2, es)"
    by (auto simp: more_table_def split: sum.splits)
  from more_rows_distinct [OF this] show ?thesis by simp
qed

section \<open>Headers and rows of a details table\<close>

text \<open>
  What \<^verbatim>\<open>more\<close> computes, said on the tree: \<open>cells r\<close> are the \<^verbatim>\<open>td\<close> children of a
  row, \<open>cell_label\<close> is the text read in a header cell (under its first \<^verbatim>\<open>b\<close> child, empty
  without one), \<open>cell_value\<close> the text read in a data cell. \<open>row_entry hs r\<close> pairs the
  headers with the cells of \<open>r\<close> in order, and \<open>r\<close> is accepted when it has a cell for every
  header. \<open>more_entries hdr rows\<close> are the entries of the accepted rows among the \<^verbatim>\<open>tr\<close>
  siblings after the header row \<open>hdr\<close>, under its headers without the empty ones at the end.
\<close>

definition cells :: "html_Node \<Rightarrow> html_Node list" where
  "cells r = filter (has_tag ''td'') (children r)"

definition cell_label :: "html_Node \<Rightarrow> string" where
  "cell_label td =
     TrimSpace (case scan ''b'' (children td) of [] \<Rightarrow> [] | b # bs \<Rightarrow> down_text (b # bs))"

definition cell_value :: "html_Node \<Rightarrow> string" where
  "cell_value td = TrimSpace (down_text [td])"

definition row_entry :: "string list \<Rightarrow> html_Node \<Rightarrow> (string \<times> string) list" where
  "row_entry hs r = put_all (zip hs (map cell_value (cells r))) []"

definition accepted :: "string list \<Rightarrow> html_Node \<Rightarrow> bool" where
  "accepted hs r = (length hs \<le> length (cells r))"

definition more_entries :: "html_Node \<Rightarrow> html_Node list \<Rightarrow> (string \<times> string) list list" where
  "more_entries hdr rows =
     (let hs = strip_trailing (map cell_label (cells hdr))
      in map (row_entry hs) (filter (accepted hs) (filter (has_tag ''tr'') rows)))"

text \<open>
  A cursor that is not in error after \<^verbatim>\<open>Sibling\<close> or \<^verbatim>\<open>Child\<close> with a tag stands on an
  element with that tag and resumes right after it; \<open>ahead tag n\<close> are the elements with the
  tag that a loop over \<^verbatim>\<open>Sibling\<close> calls will visit from there.
\<close>

definition on_tag :: "string \<Rightarrow> Node \<Rightarrow> bool" where
  "on_tag tag n = (err n = None \<longrightarrow> (\<exists>c. Node n = c # nxt n \<and> has_tag tag c))"

definition ahead :: "string \<Rightarrow> Node \<Rightarrow> html_Node list" where
  "ahead tag n = (if err n = None then filter (has_tag tag) (Node n) else [])"

lemma on_tag_Sibling: "on_tag tag (Sibling tag n)"
proof (cases "err n")
  case None
  from Sibling_cases [OF None, of tag] show ?thesis by (auto simp: on_tag_def)
next
  case (Some msg)
  then show ?thesis by (simp add: Sibling_sticky on_tag_def)
qed

lemma ahead_Sibling:
  assumes "err n = None"
  shows "ahead tag (Sibling tag n) = filter (has_tag tag) (nxt n)"
  using Sibling_cases [OF assms, of tag] by (auto simp: ahead_def)

lemma Child_on:
  assumes "err n = None" and "Node n = c # cs"
  shows "\<exists>n1. Child tag (Push n) = Inr n1 \<and> on_tag tag n1 \<and> stack n1 = Some n
    \<and> ahead tag n1 = filter (has_tag tag) (children c)"
proof -
  let ?m = "MkNode (children c) (children c) None (Some n)"
  from assms have "Child tag (Push n) = Inr (Sibling tag ?m)"
    by (simp add: Child_def Push_def)
  moreover have "ahead tag (Sibling tag ?m) = filter (has_tag tag) (children c)"
    using ahead_Sibling [of ?m tag] by simp
  ultimately show ?thesis by (simp add: on_tag_Sibling Sibling_stack)
qed

lemma down_text_hd: "down_text (c # cs) = down_text [c]"
  by (cases c) simp

lemma more_cells_spec:
  "on_tag ''td'' n \<Longrightarrow> more_cells hs n i m = (n', i', m') \<Longrightarrow>
     i' = i + min (length hs - i) (length (ahead ''td'' n))
     \<and> m' = put_all (zip (drop i hs) (map cell_value (ahead ''td'' n))) m"
proof (induction hs n i m rule: more_cells.induct)
  case (1 hs n i m)
  note unf = more_cells.simps [of hs n i m]
  show ?case
  proof (cases "err n = None \<and> i < length hs")
    case True
    then have ok: "err n = None" and i: "i < length hs" by simp_all
    from "1.prems"(1) ok obtain c where c: "Node n = c # nxt n" "has_tag ''td'' c"
      by (auto simp: on_tag_def)
    let ?m1 = "AList.update (hs ! i) (TrimSpace (ChildText n)) m"
    from "1.prems"(2) unf True
    have r: "more_cells hs (Sibling ''td'' n) (Suc i) ?m1 = (n', i', m')" by simp
    note ih = "1.IH" [OF True on_tag_Sibling r]
    have a: "ahead ''td'' n = c # ahead ''td'' (Sibling ''td'' n)"
      using c ok by (simp add: ahead_Sibling) (simp add: ahead_def)
    have t: "TrimSpace (ChildText n) = cell_value c"
      using c ok down_text_hd [of c "nxt n"] by (simp add: ChildText_def cell_value_def)
    from i have d: "drop i hs = hs ! i # drop (Suc i) hs" by (simp add: Cons_nth_drop_Suc)
    from ih a t d i show ?thesis by simp
  next
    case False
    with "1.prems"(2) unf have "i' = i" "m' = m" by auto
    moreover from False have "length hs - i = 0 \<or> ahead ''td'' n = []"
      by (auto simp: ahead_def)
    ultimately show ?thesis by auto
  qed
qed

lemma more_headers_spec:
  "on_tag ''td'' n \<Longrightarrow>
     \<exists>n'. more_headers n acc = Inr (n', acc @ map cell_label (ahead ''td'' n))"
proof (induction n acc rule: more_headers.induct)
  case (1 n acc)
  note unf = more_headers.simps [of n acc]
  show ?case
  proof (cases "err n \<noteq> None")
    case True
    with unf show ?thesis by (auto simp: ahead_def)
  next
    case False
    then have ok: "err n = None" by simp
    from "1.prems" ok obtain c where c: "Node n = c # nxt n" "has_tag ''td'' c"
      by (auto simp: on_tag_def)
    let ?m = "MkNode (children c) (children c) None (Some n)"
    let ?n1 = "Sibling ''b'' ?m"
    from ok c have ch: "Child ''b'' (Push n) = Inr ?n1" by (simp add: Child_def Push_def)
    have p: "Pop ?n1 = Inr n" by (simp add: Pop_def Sibling_stack)
    have lab: "TrimSpace (ChildText ?n1) = cell_label c"
      by (cases "scan ''b'' (children c)")
        (simp_all add: ChildText_def Sibling_def cell_label_def)
    from "1.IH" [OF False ch p on_tag_Sibling]
    obtain n' where "more_headers (Sibling ''td'' n) (acc @ [TrimSpace (ChildText ?n1)])
        = Inr (n', (acc @ [TrimSpace (ChildText ?n1)]) @ map cell_label (ahead ''td'' (Sibling ''td'' n)))"
      by blast
    moreover have "ahead ''td'' n = c # ahead ''td'' (Sibling ''td'' n)"
      using c ok by (simp add: ahead_Sibling) (simp add: ahead_def)
    ultimately show ?thesis using unf False ch p lab by simp
  qed
qed

lemma more_rows_spec:
  "on_tag ''tr'' n \<Longrightarrow>
     \<exists>n'. more_rows hs n acc
       = Inr (n', acc @ map (row_entry hs) (filter (accepted hs) (ahead ''tr'' n)))"
proof (induction hs n acc rule: more_rows.induct)
  case (1 hs n acc)
  note unf = more_rows.simps [of hs n acc]
  show ?case
  proof (cases "err n \<noteq> None")
    case True
    with unf show ?thesis by (auto simp: ahead_def)
  next
    case False
    then have ok: "err n = None" by simp
    from "1.prems" ok obtain r where r: "Node n = r # nxt n" "has_tag ''tr'' r"
      by (auto simp: on_tag_def)
    from Child_on [OF ok r(1), of "''td''"] obtain n1 where
      ch: "Child ''td'' (Push n) = Inr n1" and on: "on_tag ''td'' n1"
      and st: "stack n1 = Some n" and ah: "ahead ''td'' n1 = cells r"
      by (auto simp: cells_def)
    obtain n2 i m where mc: "more_cells hs n1 0 [] = (n2, i, m)" by (metis prod_cases3)
    from more_cells_spec [OF on mc] ah
    have i: "i = min (length hs) (length (cells r))" and m: "m = row_entry hs r"
      by (simp_all add: row_entry_def)
    from more_cells_stack [OF mc] st have p: "Pop n2 = Inr n" by (simp add: Pop_def)
    let ?acc = "if i = length hs then acc @ [m] else acc"
    from "1.IH" [OF False ch mc [symmetric] refl p on_tag_Sibling]
    obtain n' where ih: "more_rows hs (Sibling ''tr'' n) ?acc
        = Inr (n', ?acc @ map (row_entry hs) (filter (accepted hs) (ahead ''tr'' (Sibling ''tr'' n))))"
      by blast
    have a: "ahead ''tr'' n = r # ahead ''tr'' (Sibling ''tr'' n)"
      using r ok by (simp add: ahead_Sibling) (simp add: ahead_def)
    from i have acc: "(i = length hs) = accepted hs r" by (auto simp: accepted_def)
    from unf False ch mc p ih
    have "more_rows hs n acc
        = Inr (n', ?acc @ map (row_entry hs) (filter (accepted hs) (ahead ''tr'' (Sibling ''tr'' n))))"
      by simp
    with a acc m show ?thesis by auto
  qed
qed

lemma more_table_spec:
  assumes "err n = None" and "Node n = hdr # nxt n"
  shows "\<exists>n'. more_table n = Inr (n', more_entries hdr (nxt n))"
proof -
  from Child_on [OF assms, of "''td''"] obtain n1 where
    ch: "Child ''td'' (Push n) = Inr n1" and on: "on_tag ''td'' n1"
    and st: "stack n1 = Some n" and ah: "ahead ''td'' n1 = cells hdr"
    by (auto simp: cells_def)
  from more_headers_spec [OF on, of "[]"] ah obtain n2 where
    mh: "more_headers n1 [] = Inr (n2, map cell_label (cells hdr))" by auto
  from more_headers_stack [OF mh] st have p: "Pop n2 = Inr n" by (simp add: Pop_def)
  let ?hs = "strip_trailing (map cell_label (cells hdr))"
  from more_rows_spec [where n = "Sibling ''tr'' n" and hs = ?hs and acc = "[]", OF on_tag_Sibling]
  obtain n' where
    "more_rows ?hs (Sibling ''tr'' n) []
      = Inr (n', map (row_entry ?hs) (filter (accepted ?hs) (ahead ''tr'' (Sibling ''tr'' n))))"
    by auto
  with ch mh p assms(1) show ?thesis
    by (simp add: more_table_def more_entries_def ahead_Sibling Let_def)
qed

lemma strip_trailing_Nil: "strip_trailing [] = []"
  by (subst strip_trailing.simps) simp

lemma strip_trailing_snoc:
  "strip_trailing (xs @ [x]) = (if x = [] then strip_trailing xs else xs @ [x])"
  by (subst strip_trailing.simps) simp

lemma strip_trailing_decomp:
  "(\<exists>k. hs = strip_trailing hs @ replicate k [])
   \<and> (strip_trailing hs = [] \<or> last (strip_trailing hs) \<noteq> [])"
proof (induction hs rule: rev_induct)
  case Nil
  show ?case by (simp add: strip_trailing_Nil)
next
  case (snoc x xs)
  show ?case
  proof (cases "x = []")
    case True
    from snoc obtain k where "xs = strip_trailing xs @ replicate k []" by blast
    then have "xs @ [[]] = (strip_trailing xs @ replicate k []) @ [[]]"
      by (rule arg_cong [where f = "\<lambda>u. u @ [[]]"])
    also have "\<dots> = strip_trailing xs @ replicate (Suc k) []"
      by (simp add: replicate_append_same)
    finally have "xs @ [x] = strip_trailing xs @ replicate (Suc k) []"
      using True by simp
    then have "\<exists>k. xs @ [x] = strip_trailing xs @ replicate k []" by blast
    with True snoc show ?thesis by (simp only: strip_trailing_snoc if_True) simp
  next
    case False
    then have "xs @ [x] = strip_trailing (xs @ [x]) @ replicate 0 []"
      by (simp add: strip_trailing_snoc)
    then have "\<exists>k. xs @ [x] = strip_trailing (xs @ [x]) @ replicate k []" by blast
    with False show ?thesis by (simp add: strip_trailing_snoc)
  qed
qed

lemma strip_trailing_replicate: "strip_trailing (hs @ replicate k []) = strip_trailing hs"
proof (induction k)
  case 0
  show ?case by simp
next
  case (Suc k)
  have "hs @ replicate (Suc k) [] = (hs @ replicate k []) @ [[]]"
    by (simp add: replicate_append_same)
  with Suc show ?case by (simp only: strip_trailing_snoc) simp
qed

lemma row_entry_keys: "accepted hs r \<Longrightarrow> fst ` set (row_entry hs r) = set hs"
proof -
  assume "accepted hs r"
  then have "map fst (zip hs (map cell_value (cells r))) = hs"
    by (simp add: accepted_def map_fst_zip_take)
  then have "fst ` set (zip hs (map cell_value (cells r))) = set hs"
    by (metis set_map)
  then show ?thesis by (simp add: row_entry_def put_all_keys)
qed

lemma navigate_append:
  "navigate (xs @ ys) n = (case navigate xs n of Inl a \<Rightarrow> Inl a | Inr m \<Rightarrow> navigate ys m)"
proof (induction xs arbitrary: n)
  case Nil
  show ?case by simp
next
  case (Cons op xs)
  then show ?case by (cases op) (simp_all split: sum.splits)
qed

lemma navigate_last_Child:
  assumes "navigate (ops @ [NavChild tag]) n = Inr n1" and "err n1 = None"
  shows "\<exists>c. Node n1 = c # nxt n1 \<and> has_tag tag c"
proof -
  from assms(1) obtain m where c: "Child tag m = Inr n1"
    by (auto simp: navigate_append split: sum.splits)
  have "err m = None"
  proof (rule ccontr)
    assume "err m \<noteq> None"
    with c assms(2) show False by (simp add: Child_sticky)
  qed
  with c obtain x xs where "n1 = Sibling tag (MkNode (children x) (children x) None (stack m))"
    by (cases "Node m") (auto simp: Child_def)
  with on_tag_Sibling [of tag "MkNode (children x) (children x) None (stack m)"] assms(2)
  show ?thesis by (simp add: on_tag_def)
qed

text \<open>
  Claim C5. When the descent of \<^verbatim>\<open>more\<close> has reached the header row of the details
  table, \<^verbatim>\<open>more\<close> returns, with the cursor restored, one entry for each later row that
  has a cell for every header left after the empty labels at the end of the header row are
  dropped, and none for a shorter row. The headers read are the headers kept followed by empty
  labels only, the last header kept is not empty, and the keys of every entry are exactly the
  headers kept, so no entry has a key or a value from a dropped column.
\<close>

theorem more_stripped_headers:
  assumes "navigate [NavChild ''td'', NavChild ''div'', NavChild ''div'', NavChild ''table'',
      NavSibling ''table'', NavChild ''tbody'', NavChild ''tr''] (Push n) = Inr n1"
    and "err n1 = None"
  shows "\<exists>hdr. Node n1 = hdr # nxt n1 \<and> has_tag ''tr'' hdr
    \<and> more n = Inr (n, Inr (more_entries hdr (nxt n1)))
    \<and> (\<exists>k. map cell_label (cells hdr)
          = strip_trailing (map cell_label (cells hdr)) @ replicate k [])
    \<and> (strip_trailing (map cell_label (cells hdr)) = []
        \<or> last (strip_trailing (map cell_label (cells hdr))) \<noteq> [])
    \<and> (\<forall>m\<in>set (more_entries hdr (nxt n1)).
          fst ` set m = set (strip_trailing (map cell_label (cells hdr))))
    \<and> length (more_entries hdr (nxt n1))
        = length (filter (\<lambda>r. has_tag ''tr'' r
            \<and> length (strip_trailing (map cell_label (cells hdr))) \<le> length (cells r)) (nxt n1))
    \<and> (\<forall>hs k. strip_trailing (hs @ replicate k []) = strip_trailing hs)"
proof -
  let ?chain = "[NavChild ''td'', NavChild ''div'', NavChild ''div'', NavChild ''table'',
      NavSibling ''table'', NavChild ''tbody'', NavChild ''tr'']"
  have "?chain = [NavChild ''td'', NavChild ''div'', NavChild ''div'', NavChild ''table'',
      NavSibling ''table'', NavChild ''tbody''] @ [NavChild ''tr'']" by simp
  with assms(1) navigate_last_Child [OF _ assms(2)]
  obtain hdr where hdr: "Node n1 = hdr # nxt n1" "has_tag ''tr'' hdr" by metis
  from navigate_stack [OF assms(1)] have st: "stack n1 = Some n" by (simp add: Push_def)
  from more_table_spec [OF assms(2) hdr(1)] obtain n2 where
    mt: "more_table n1 = Inr (n2, more_entries hdr (nxt n1))" by blast
  then obtain m1 m2 hs m3 where c: "Child ''td'' (Push n1) = Inr m1"
    and mh: "more_headers m1 [] = Inr (m2, hs)" and p3: "Pop m2 = Inr m3"
    and mr: "more_rows (strip_trailing hs) (Sibling ''tr'' m3) [] = Inr (n2, more_entries hdr (nxt n1))"
    by (auto simp: more_table_def split: sum.splits)
  from more_headers_stack [OF mh] Child_stack [OF c] have "stack m2 = Some n1"
    by (simp add: Push_def)
  with p3 have "m3 = n1" by (simp add: Pop_def)
  with more_rows_stack [OF mr] st have "stack n2 = Some n" by (simp add: Sibling_stack)
  then have "Pop n2 = Inr n" by (simp add: Pop_def)
  with assms mt have m: "more n = Inr (n, Inr (more_entries hdr (nxt n1)))"
    by (simp add: more_def)
  let ?hs = "strip_trailing (map cell_label (cells hdr))"
  have keys: "\<forall>m\<in>set (more_entries hdr (nxt n1)). fst ` set m = set ?hs"
    by (auto simp: more_entries_def Let_def row_entry_keys)
  have len: "length (more_entries hdr (nxt n1))
        = length (filter (\<lambda>r. has_tag ''tr'' r \<and> length ?hs \<le> length (cells r)) (nxt n1))"
    by (simp add: more_entries_def Let_def accepted_def conj_commute)
  from hdr m keys len strip_trailing_decomp [of "map cell_label (cells hdr)"]
    strip_trailing_replicate
  show ?thesis by blast
qed

definition lots_cursor :: Node where
  "lots_cursor =
     MkNode
       [lots_row [''Shares'', '' Price '', '' '', []]
          [[''5'', ''1.0'', ''x''], [''6''], [''7'', ''2.0'']]]
       [] None None"

theorem more_stripped_headers_witness:
  "more lots_cursor
     = Inr (lots_cursor,
         Inr [[(''Shares'', ''5''), (''Price'', ''1.0'')], [(''Shares'', ''7''), (''Price'', ''2.0'')]])"
proof -
  let ?chain = "[NavChild ''td'', NavChild ''div'', NavChild ''div'', NavChild ''table'',
      NavSibling ''table'', NavChild ''tbody'', NavChild ''tr'']"
  let ?n1 = "projr (navigate ?chain (Push lots_cursor))"
  have "\<not> isl (navigate ?chain (Push lots_cursor))" by code_simp
  then have nav: "navigate ?chain (Push lots_cursor) = Inr ?n1"
    by (cases "navigate ?chain (Push lots_cursor)") auto
  have ok: "err ?n1 = None" by code_simp
  from more_stripped_headers [OF nav ok] obtain hdr where
    h: "Node ?n1 = hdr # nxt ?n1"
    and m: "more lots_cursor = Inr (lots_cursor, Inr (more_entries hdr (nxt ?n1)))"
    by blast
  from h have "hdr = hd (Node ?n1)" by simp
  moreover have "more_entries (hd (Node ?n1)) (nxt ?n1)
      = [[(''Shares'', ''5''), (''Price'', ''1.0'')], [(''Shares'', ''7''), (''Price'', ''2.0'')]]"
    by code_simp
  ultimately show ?thesis using m by simp
qed

section \<open>Deposit and Forced Quick Sell rows\<close>

text \<open>
  Claim C4. When the loop comes to a "Deposit" or "Forced Quick Sell" row and \<^verbatim>\<open>more\<close>
  returns a number of entries other than one for the row after it, the row stops the program:
  the run writes nothing and exits with a status that is not zero. When \<^verbatim>\<open>more\<close> returns
  exactly one entry and the row has a cell for every column of the header, the entries so far
  are committed and the pending entry holds all the fields of the row, overwritten by those of
  the details. A row with fewer cells than the header needs panics at \<^verbatim>\<open>values[i]\<close>.
\<close>

theorem deposit_cardinality:
  assumes "prelude doc = Inr (header, n0)"
    and "reaches header (Sibling ''tr'' n0, MkLedger [] None) (n, l)"
    and "err n = None"
    and "row n = Inr (n1, Inr vals)"
    and "index vals (at_key header ''Action'') = Inr action"
    and "action = ''Deposit'' \<or> action = ''Forced Quick Sell''"
    and "more (Sibling ''tr'' n) = Inr (n2, Inr ds)"
  shows "(length ds \<noteq> 1 \<longrightarrow>
           (\<exists>a. row_step header n l = Inl a
              \<and> (a = ExpectedOneRow (length ds) \<or> a = IndexOutOfRange)
              \<and> main doc = Inl a \<and> exit_status a \<noteq> 0))
    \<and> (length ds = 1 \<and> (\<forall>(k, i)\<in>set header. i < length vals) \<longrightarrow>
           (\<exists>kvs. row_step header n l
                = Inr (Sibling ''tr'' n, MkLedger (all_entries l) (Some kvs))
              \<and> map_of kvs
                = (\<lambda>k. map_option (\<lambda>i. vals ! i) (map_of header k)) ++ map_of (ds ! 0)))
    \<and> (\<not> (\<forall>(k, i)\<in>set header. i < length vals) \<longrightarrow>
           row_step header n l = Inl IndexOutOfRange \<and> main doc = Inl IndexOutOfRange)"
proof -
  from row_restores [OF assms(4)] have n1: "n1 = n" .
  from more_restores [OF assms(7)] have n2: "n2 = Sibling ''tr'' n" .
  from assms(4,5,6) n1 have rs: "row_step header n l = deposit_row header vals n l"
    by (auto simp: row_step_def dispatch_def)
  note wh = write_header_Some [of header vals "all_entries l" "[]"]
  show ?thesis
  proof (intro conjI impI)
    assume bad: "length ds \<noteq> 1"
    let ?a = "if \<forall>(k, i)\<in>set header. i < length vals
      then ExpectedOneRow (length ds) else IndexOutOfRange"
    from bad assms(7) wh have "deposit_row header vals n l = Inl ?a"
      by (simp add: deposit_row_def Next_eq)
    with rs have ab: "row_step header n l = Inl ?a" by simp
    from run_abort(2) [OF assms(1,2,3) ab] ab
    show "\<exists>a. row_step header n l = Inl a
              \<and> (a = ExpectedOneRow (length ds) \<or> a = IndexOutOfRange)
              \<and> main doc = Inl a \<and> exit_status a \<noteq> 0"
      by (cases "\<forall>(k, i)\<in>set header. i < length vals") auto
  next
    assume good: "length ds = 1 \<and> (\<forall>(k, i)\<in>set header. i < length vals)"
    let ?kvs = "put_all (ds ! 0) (put_all (header_fields header vals) [])"
    from good assms(7) wh n2
    have "deposit_row header vals n l
        = Inr (Sibling ''tr'' n, MkLedger (all_entries l) (Some ?kvs))"
      by (simp add: deposit_row_def Next_eq write_entry_Some)
    with rs have r: "row_step header n l
        = Inr (Sibling ''tr'' n, MkLedger (all_entries l) (Some ?kvs))" by simp
    from good have "ds ! 0 \<in> set ds" by (cases ds) auto
    with more_distinct [OF assms(7)] have "distinct (map fst (ds ! 0))" by blast
    then have "map_of ?kvs
        = (\<lambda>k. map_option (\<lambda>i. vals ! i) (map_of header k)) ++ map_of (ds ! 0)"
      by (simp add: map_of_put_all [of "ds ! 0"] map_of_rev_distinct
          map_of_header_fields [OF prelude_distinct [OF assms(1)]])
    with r show "\<exists>kvs. row_step header n l
                = Inr (Sibling ''tr'' n, MkLedger (all_entries l) (Some kvs))
              \<and> map_of kvs
                = (\<lambda>k. map_option (\<lambda>i. vals ! i) (map_of header k)) ++ map_of (ds ! 0)"
      by blast
  next
    assume "\<not> (\<forall>(k, i)\<in>set header. i < length vals)"
    with wh have "deposit_row header vals n l = Inl IndexOutOfRange"
      by (simp add: deposit_row_def Next_eq)
    with rs show ab: "row_step header n l = Inl IndexOutOfRange" by simp
    from run_abort(2) [OF assms(1,2,3) ab] show "main doc = Inl IndexOutOfRange" .
  qed
qed

definition deposit_two_page :: html_Node where
  "deposit_two_page =
     history [data_row [''Date'', ''Action''], data_row [''01/02'', ''Deposit''],
       lots_row [''Shares'', ''Price''] [[''5'', ''1.0''], [''6'', ''2.0'']]]"

definition deposit_one_page :: html_Node where
  "deposit_one_page =
     history [data_row [''Date'', ''Action''], data_row [''01/02'', ''Deposit''],
       lots_row [''Shares'', ''Price''] [[''5'', ''1.0'']]]"

theorem deposit_cardinality_witness:
  "main deposit_two_page = Inl (ExpectedOneRow 2)
   \<and> exit_status (ExpectedOneRow 2) \<noteq> 0
   \<and> (\<exists>kvs. row_step (fst (projr (prelude deposit_one_page)))
          (Sibling ''tr'' (snd (projr (prelude deposit_one_page)))) (MkLedger [] None)
        = Inr (Sibling ''tr'' (Sibling ''tr'' (snd (projr (prelude deposit_one_page)))),
               MkLedger [] (Some kvs))
      \<and> map_of kvs ''Date'' = Some ''01/02'' \<and> map_of kvs ''Action'' = Some ''Deposit''
      \<and> map_of kvs ''Shares'' = Some ''5'' \<and> map_of kvs ''Price'' = Some ''1.0'')"
proof -
  let ?l = "MkLedger [] None"
  let ?vals = "[''01/02'', ''Deposit'']"
  have two: "main deposit_two_page = Inl (ExpectedOneRow 2)"
  proof -
    let ?p = "projr (prelude deposit_two_page)"
    let ?h = "fst ?p" and ?n = "Sibling ''tr'' (snd ?p)"
    let ?ds = "[[(''Shares'', ''5''), (''Price'', ''1.0'')], [(''Shares'', ''6''), (''Price'', ''2.0'')]]"
    have "\<not> isl (prelude deposit_two_page)" by code_simp
    then have p: "prelude deposit_two_page = Inr (?h, snd ?p)"
      by (cases "prelude deposit_two_page") auto
    have ok: "err ?n = None" by code_simp
    have rw: "row ?n = Inr (?n, Inr ?vals)" by code_simp
    have ix: "index ?vals (at_key ?h ''Action'') = Inr ''Deposit''" by code_simp
    have mo: "more (Sibling ''tr'' ?n) = Inr (Sibling ''tr'' ?n, Inr ?ds)" by code_simp
    from deposit_cardinality [OF p reaches_start ok rw ix _ mo]
    obtain a where "main deposit_two_page = Inl a"
      and "a = ExpectedOneRow (length ?ds) \<or> a = IndexOutOfRange" by auto
    moreover have "main deposit_two_page \<noteq> Inl IndexOutOfRange" by code_simp
    ultimately show ?thesis by auto
  qed
  let ?p = "projr (prelude deposit_one_page)"
  let ?h = "fst ?p" and ?n = "Sibling ''tr'' (snd ?p)"
  let ?ds = "[[(''Shares'', ''5''), (''Price'', ''1.0'')]]"
  have "\<not> isl (prelude deposit_one_page)" by code_simp
  then have p: "prelude deposit_one_page = Inr (?h, snd ?p)"
    by (cases "prelude deposit_one_page") auto
  have ok: "err ?n = None" by code_simp
  have rw: "row ?n = Inr (?n, Inr ?vals)" by code_simp
  have ix: "index ?vals (at_key ?h ''Action'') = Inr ''Deposit''" by code_simp
  have mo: "more (Sibling ''tr'' ?n) = Inr (Sibling ''tr'' ?n, Inr ?ds)" by code_simp
  have rg: "\<forall>(k, i)\<in>set ?h. i < length ?vals" by code_simp
  have hd: "map_of ?h ''Date'' = Some 0" "map_of ?h ''Action'' = Some 1"
    "map_of ?h ''Shares'' = None" "map_of ?h ''Price'' = None" by code_simp+
  from deposit_cardinality [OF p reaches_start ok rw ix _ mo] rg
  obtain kvs where r: "row_step ?h ?n ?l = Inr (Sibling ''tr'' ?n, MkLedger (all_entries ?l) (Some kvs))"
    and m: "map_of kvs = (\<lambda>k. map_option (\<lambda>i. ?vals ! i) (map_of ?h k)) ++ map_of (?ds ! 0)"
    by auto
  from m hd have "map_of kvs ''Date'' = Some ''01/02''" "map_of kvs ''Action'' = Some ''Deposit''"
    "map_of kvs ''Shares'' = Some ''5''" "map_of kvs ''Price'' = Some ''1.0''"
    by (simp_all add: map_add_def)
  with r two show ?thesis by (simp add: all_entries_def)
qed

section \<open>Exer and Hold and Sale rows\<close>

text \<open>
  Claim C3. When the loop comes to an "Exer and Hold" or "Sale" row and \<^verbatim>\<open>more\<close> returns
  \<open>N\<close> entries for the row after it: with \<open>N = 0\<close> the row stops the program through
  \<^verbatim>\<open>log.Fatalf\<close>; with \<open>N \<ge> 1\<close>, and a cell in the row at the column of each core key, the
  ledger gains exactly \<open>N\<close> entries, in the order of the details, each made of the four core
  fields of the row overwritten by the fields of one details entry. A row with no cell at the
  column of a core key panics at \<^verbatim>\<open>values[header[k]]\<close>.
\<close>

theorem exercise_fan_out:
  assumes "prelude doc = Inr (header, n0)"
    and "reaches header (Sibling ''tr'' n0, MkLedger [] None) (n, l)"
    and "err n = None"
    and "row n = Inr (n1, Inr vals)"
    and "index vals (at_key header ''Action'') = Inr action"
    and "action = ''Exer and Hold'' \<or> action = ''Sale''"
    and "more (Sibling ''tr'' n) = Inr (n2, Inr ds)"
  shows "(length ds = 0 \<longrightarrow>
           row_step header n l = Inl EmptyMoreDetails \<and> main doc = Inl EmptyMoreDetails
           \<and> exit_status EmptyMoreDetails \<noteq> 0)
    \<and> (1 \<le> length ds \<and> (\<forall>k\<in>set coreKeys. at_key header k < length vals) \<longrightarrow>
           (\<exists>l'. row_step header n l = Inr (Sibling ''tr'' n, l')
              \<and> length (all_entries l') = length (all_entries l) + length ds
              \<and> map map_of (all_entries l')
                = map map_of (all_entries l)
                  @ map (\<lambda>m. map_of (core_fields header vals) ++ map_of m) ds))
    \<and> (1 \<le> length ds \<and> \<not> (\<forall>k\<in>set coreKeys. at_key header k < length vals) \<longrightarrow>
           row_step header n l = Inl IndexOutOfRange \<and> main doc = Inl IndexOutOfRange)"
proof -
  from row_restores [OF assms(4)] have n1: "n1 = n" .
  from more_restores [OF assms(7)] have n2: "n2 = Sibling ''tr'' n" .
  from assms(4,5,6) n1 have rs: "row_step header n l = exercise_row header vals n l"
    by (auto simp: row_step_def dispatch_def)
  show ?thesis
  proof (intro conjI impI)
    assume "length ds = 0"
    with assms(7) rs show ab: "row_step header n l = Inl EmptyMoreDetails"
      by (simp add: exercise_row_def)
    from run_abort(2) [OF assms(1,2,3) ab] show "main doc = Inl EmptyMoreDetails" .
    show "exit_status EmptyMoreDetails \<noteq> 0" by simp
  next
    assume good: "1 \<le> length ds \<and> (\<forall>k\<in>set coreKeys. at_key header k < length vals)"
    then have core: "\<forall>k\<in>set coreKeys. at_key header k < length vals" by simp
    from fan_out_entries [OF core, of ds l] obtain l' where
      f: "fan_out ds header vals l = Inr l'"
      and a: "all_entries l' = all_entries l @ map (fan_entry header vals) ds"
      by blast
    from good have "ds \<noteq> []" by auto
    with f assms(7) rs n2 have r: "row_step header n l = Inr (Sibling ''tr'' n, l')"
      by (simp add: exercise_row_def)
    have "map map_of (map (fan_entry header vals) ds)
        = map (\<lambda>m. map_of (core_fields header vals) ++ map_of m) ds"
      using more_distinct [OF assms(7)] by (simp add: map_of_fan_entry)
    with a have "map map_of (all_entries l')
        = map map_of (all_entries l) @ map (\<lambda>m. map_of (core_fields header vals) ++ map_of m) ds"
      by simp
    with r a show "\<exists>l'. row_step header n l = Inr (Sibling ''tr'' n, l')
              \<and> length (all_entries l') = length (all_entries l) + length ds
              \<and> map map_of (all_entries l')
                = map map_of (all_entries l)
                  @ map (\<lambda>m. map_of (core_fields header vals) ++ map_of m) ds"
      by auto
  next
    assume bad: "1 \<le> length ds \<and> \<not> (\<forall>k\<in>set coreKeys. at_key header k < length vals)"
    then obtain m ms where "ds = m # ms" by (cases ds) auto
    with bad fan_out_ragged [of header vals m ms l] assms(7) rs
    show ab: "row_step header n l = Inl IndexOutOfRange"
      by (simp add: exercise_row_def)
    from run_abort(2) [OF assms(1,2,3) ab] show "main doc = Inl IndexOutOfRange" .
  qed
qed

definition sale_page :: html_Node where
  "sale_page =
     history [data_row [''Date'', ''Description'', ''Action'', ''Symbol''],
       data_row [''01/02'', ''Option'', ''Sale'', ''X''],
       lots_row [''Shares'', ''Price'', []] [[''5'', ''1.0'', ''x''], [''6''], [''7'', ''2.0'']]]"

definition sale_empty_page :: html_Node where
  "sale_empty_page =
     history [data_row [''Date'', ''Description'', ''Action'', ''Symbol''],
       data_row [''01/02'', ''Option'', ''Sale'', ''X''],
       lots_row [''Shares'', ''Price''] [[''6'']]]"

theorem exercise_fan_out_witness:
  "main sale_empty_page = Inl EmptyMoreDetails
   \<and> (\<exists>l'. row_step (fst (projr (prelude sale_page)))
          (Sibling ''tr'' (snd (projr (prelude sale_page)))) (MkLedger [] None)
        = Inr (Sibling ''tr'' (Sibling ''tr'' (snd (projr (prelude sale_page)))), l')
      \<and> length (all_entries l') = 2
      \<and> all_entries l'
        = [[(''Date'', ''01/02''), (''Description'', ''Option''), (''Action'', ''Sale''),
            (''Symbol'', ''X''), (''Shares'', ''5''), (''Price'', ''1.0'')],
           [(''Date'', ''01/02''), (''Description'', ''Option''), (''Action'', ''Sale''),
            (''Symbol'', ''X''), (''Shares'', ''7''), (''Price'', ''2.0'')]])"
proof -
  let ?l = "MkLedger [] None"
  let ?vals = "[''01/02'', ''Option'', ''Sale'', ''X'']"
  have none: "main sale_empty_page = Inl EmptyMoreDetails"
  proof -
    let ?p = "projr (prelude sale_empty_page)"
    let ?h = "fst ?p" and ?n = "Sibling ''tr'' (snd ?p)"
    have "\<not> isl (prelude sale_empty_page)" by code_simp
    then have p: "prelude sale_empty_page = Inr (?h, snd ?p)"
      by (cases "prelude sale_empty_page") auto
    have ok: "err ?n = None" by code_simp
    have rw: "row ?n = Inr (?n, Inr ?vals)" by code_simp
    have ix: "index ?vals (at_key ?h ''Action'') = Inr ''Sale''" by code_simp
    have mo: "more (Sibling ''tr'' ?n) = Inr (Sibling ''tr'' ?n, Inr [])" by code_simp
    from exercise_fan_out [OF p reaches_start ok rw ix _ mo] show ?thesis by simp
  qed
  let ?p = "projr (prelude sale_page)"
  let ?h = "fst ?p" and ?n = "Sibling ''tr'' (snd ?p)"
  let ?ds = "[[(''Shares'', ''5''), (''Price'', ''1.0'')], [(''Shares'', ''7''), (''Price'', ''2.0'')]]"
  have "\<not> isl (prelude sale_page)" by code_simp
  then have p: "prelude sale_page = Inr (?h, snd ?p)"
    by (cases "prelude sale_page") auto
  have ok: "err ?n = None" by code_simp
  have rw: "row ?n = Inr (?n, Inr ?vals)" by code_simp
  have ix: "index ?vals (at_key ?h ''Action'') = Inr ''Sale''" by code_simp
  have mo: "more (Sibling ''tr'' ?n) = Inr (Sibling ''tr'' ?n, Inr ?ds)" by code_simp
  have rg: "\<forall>k\<in>set coreKeys. at_key ?h k < length ?vals" by code_simp
  from exercise_fan_out [OF p reaches_start ok rw ix _ mo] rg
  obtain l' where r: "row_step ?h ?n ?l = Inr (Sibling ''tr'' ?n, l')"
    and n: "length (all_entries l') = length (all_entries ?l) + length ?ds"
    by auto
  have "map_sum id (all_entries \<circ> snd) (row_step ?h ?n ?l)
      = Inr [[(''Date'', ''01/02''), (''Description'', ''Option''), (''Action'', ''Sale''),
            (''Symbol'', ''X''), (''Shares'', ''5''), (''Price'', ''1.0'')],
           [(''Date'', ''01/02''), (''Description'', ''Option''), (''Action'', ''Sale''),
            (''Symbol'', ''X''), (''Shares'', ''7''), (''Price'', ''2.0'')]]"
    by code_simp
  with r have "all_entries l'
        = [[(''Date'', ''01/02''), (''Description'', ''Option''), (''Action'', ''Sale''),
            (''Symbol'', ''X''), (''Shares'', ''5''), (''Price'', ''1.0'')],
           [(''Date'', ''01/02''), (''Description'', ''Option''), (''Action'', ''Sale''),
            (''Symbol'', ''X''), (''Shares'', ''7''), (''Price'', ''2.0'')]]"
    by simp
  with r n none show ?thesis by (simp add: all_entries_def)
qed

section \<open>The entry pending at the end of the input\<close>

text \<open>
  Claim C1. The claim is that the entry still pending when the rows end is committed and is
  the last element of the output. \<^verbatim>\<open>main\<close> encodes \<^verbatim>\<open>l.entries\<close> right after the
  loop and never calls \<^verbatim>\<open>Next\<close> again: whenever a run ends with a pending entry that is
  not empty, the output is the entries of the ledger without that last one. On a history with
  a single "Lapse" row the ledger ends with the row's entry pending and the output is empty.
\<close>

theorem pending_entry_dropped:
  "(\<forall>doc l m. run doc = Inr l \<and> e l = Some m \<and> m \<noteq> [] \<longrightarrow>
       all_entries l = entries l @ [m] \<and> main doc = Inr (butlast (all_entries l)))
   \<and> run lapse_page
     = Inr (MkLedger [] (Some [(''Date'', ''01/02''), (''Action'', ''Lapse''), (''Shares:'', ''5'')]))
   \<and> main lapse_page = Inr []"
proof -
  have r: "run lapse_page
     = Inr (MkLedger [] (Some [(''Date'', ''01/02''), (''Action'', ''Lapse''), (''Shares:'', ''5'')]))"
    by code_simp
  then have m: "main lapse_page = Inr []" by (simp add: main_def)
  have "all_entries l = entries l @ [m] \<and> main doc = Inr (butlast (all_entries l))"
    if "run doc = Inr l \<and> e l = Some m \<and> m \<noteq> []" for doc l m
    using that by (simp add: main_def all_entries_def)
  then have "\<forall>doc l m. run doc = Inr l \<and> e l = Some m \<and> m \<noteq> [] \<longrightarrow>
       all_entries l = entries l @ [m] \<and> main doc = Inr (butlast (all_entries l))"
    by blast
  with r m show ?thesis by blast
qed

theorem pending_entry_dropped_witness:
  "\<exists>l m. run lapse_page = Inr l \<and> e l = Some m \<and> m \<noteq> []
     \<and> all_entries l = [m] \<and> main lapse_page = Inr []"
proof -
  let ?m = "[(''Date'', ''01/02''), (''Action'', ''Lapse''), (''Shares:'', ''5'')]"
  from pending_entry_dropped have r: "run lapse_page = Inr (MkLedger [] (Some ?m))"
    and "\<forall>doc l m. run doc = Inr l \<and> e l = Some m \<and> m \<noteq> [] \<longrightarrow>
       all_entries l = entries l @ [m] \<and> main doc = Inr (butlast (all_entries l))"
    by blast+
  from this(2) [rule_format, of lapse_page "MkLedger [] (Some ?m)" ?m] r
  have "all_entries (MkLedger [] (Some ?m)) = [?m]" and "main lapse_page = Inr []" by simp_all
  with r show ?thesis by (intro exI [of _ "MkLedger [] (Some ?m)"] exI [of _ ?m]) simp
qed

end
